theory Spec2Isabelle
  imports Main
begin

section \<open>The injected capabilities\<close>

text \<open>
  DeepSet imports three functions from libraries outside the repository: \<open>hashIt\<close>
  (package hash-it), \<open>_.isEqual\<close> and \<open>_.cloneDeep\<close> (lodash). They are parameters of
  the model, bundled in one record. The element type \<open>T\<close> of \<open>DeepSet<T>\<close> is the type
  variable \<open>'a\<close>; a hash is a JavaScript integer, modelled as \<open>int\<close>.
\<close>

record 'a providers =
  hashIt :: "'a \<Rightarrow> int"
  isEqual :: "'a \<Rightarrow> 'a \<Rightarrow> bool"
  cloneDeep :: "'a \<Rightarrow> 'a"

text \<open>The contract the specification states for the providers (section 6).\<close>

definition equivalence :: "'a providers \<Rightarrow> bool" where
  "equivalence P \<longleftrightarrow>
     (\<forall>a. isEqual P a a) \<and>
     (\<forall>a b. isEqual P a b \<longrightarrow> isEqual P b a) \<and>
     (\<forall>a b c. isEqual P a b \<longrightarrow> isEqual P b c \<longrightarrow> isEqual P a c)"

definition hash_consistent :: "'a providers \<Rightarrow> bool" where
  "hash_consistent P \<longleftrightarrow> (\<forall>a b. isEqual P a b \<longrightarrow> hashIt P a = hashIt P b)"

definition clone_faithful :: "'a providers \<Rightarrow> bool" where
  "clone_faithful P \<longleftrightarrow> (\<forall>a. isEqual P (cloneDeep P a) a)"

definition providers_ok :: "'a providers \<Rightarrow> bool" where
  "providers_ok P \<longleftrightarrow> equivalence P \<and> hash_consistent P \<and> clone_faithful P"

section \<open>JavaScript's Map and Array operations used by DeepSet\<close>

text \<open>
  A JavaScript \<open>Map\<close> iterates in the order in which its keys were first set; \<open>set\<close> on a
  key that is present keeps the key's position, \<open>set\<close> on a new key appends it, and
  \<open>delete\<close> removes the entry. The model is an association list in iteration order.
\<close>

fun Map_get :: "(int \<times> 'v) list \<Rightarrow> int \<Rightarrow> 'v option" where
  "Map_get [] k = None"
| "Map_get ((k', v) # m) k = (if k' = k then Some v else Map_get m k)"

definition Map_has :: "(int \<times> 'v) list \<Rightarrow> int \<Rightarrow> bool" where
  "Map_has m k = (Map_get m k \<noteq> None)"

fun Map_set :: "(int \<times> 'v) list \<Rightarrow> int \<Rightarrow> 'v \<Rightarrow> (int \<times> 'v) list" where
  "Map_set [] k v = [(k, v)]"
| "Map_set ((k', v') # m) k v = (if k' = k then (k, v) # m else (k', v') # Map_set m k v)"

fun Map_delete :: "(int \<times> 'v) list \<Rightarrow> int \<Rightarrow> (int \<times> 'v) list" where
  "Map_delete [] k = []"
| "Map_delete ((k', v') # m) k = (if k' = k then Map_delete m k else (k', v') # Map_delete m k)"

definition Map_values :: "(int \<times> 'v) list \<Rightarrow> 'v list" where
  "Map_values m = map snd m"

text \<open>
  \<open>Array.prototype.some\<close> is \<open>list_ex\<close>. \<open>findIndex\<close> returns the first index whose
  element satisfies the predicate; JavaScript's \<open>-1\<close> is \<open>None\<close>. \<open>splice(index, 1)\<close>
  removes the element at \<open>index\<close>.
\<close>

fun findIndex :: "('a \<Rightarrow> bool) \<Rightarrow> 'a list \<Rightarrow> nat option" where
  "findIndex p [] = None"
| "findIndex p (x # xs) =
     (if p x then Some 0 else (case findIndex p xs of None \<Rightarrow> None | Some i \<Rightarrow> Some (Suc i)))"

definition splice1 :: "'a list \<Rightarrow> nat \<Rightarrow> 'a list" where
  "splice1 xs index = take index xs @ drop (Suc index) xs"

section \<open>DeepSet: the container state and its operations\<close>

text \<open>
  The state of a \<open>DeepSet<T>\<close> is its field \<open>_map : Map<number, T[]>\<close>. The other field,
  \<open>_size\<close>, is initialised to 0 and never read or written again (the \<open>size\<close> getter
  recomputes the count), so it is not part of the state. This section gives every
  operation as a function on container states; the object store further below gives
  the mutating operations on references, where a call changes arrays and Maps in place,
  and the two are proved to agree.
\<close>

type_synonym 'a deepset = "(int \<times> 'a list) list"

definition empty_set :: "'a deepset" where
  "empty_set = []"

text \<open>The private method \<open>_add\<close>.\<close>

definition p_add :: "'a providers \<Rightarrow> 'a deepset \<Rightarrow> 'a \<Rightarrow> 'a deepset" where
  "p_add P m val =
     (let hash = hashIt P val;
          m1 = (if \<not> Map_has m hash then Map_set m hash [] else m)
      in case Map_get m1 hash of
           None \<Rightarrow> m1
         | Some vals \<Rightarrow>
             if \<not> list_ex (\<lambda>v. isEqual P v val) vals
             then Map_set m1 hash (vals @ [val])
             else m1)"

definition add :: "'a providers \<Rightarrow> 'a deepset \<Rightarrow> 'a list \<Rightarrow> 'a deepset" where
  "add P m vals = fold (\<lambda>val s. p_add P s val) vals m"

text \<open>The constructor: an empty map, then \<open>this.add(...values)\<close>.\<close>

definition DeepSet :: "'a providers \<Rightarrow> 'a list \<Rightarrow> 'a deepset" where
  "DeepSet P vals = add P empty_set vals"

definition clone :: "'a providers \<Rightarrow> 'a deepset \<Rightarrow> 'a deepset" where
  "clone P m = map (\<lambda>(k, vals). (k, map (cloneDeep P) vals)) m"

definition has :: "'a providers \<Rightarrow> 'a deepset \<Rightarrow> 'a \<Rightarrow> bool" where
  "has P m val =
     (let hash = hashIt P val;
          vals = (case Map_get m hash of None \<Rightarrow> [] | Some vs \<Rightarrow> vs)
      in list_ex (\<lambda>v. isEqual P v val) vals)"

text \<open>\<open>delete\<close> returns its boolean result together with the new state.\<close>

definition delete :: "'a providers \<Rightarrow> 'a deepset \<Rightarrow> 'a \<Rightarrow> bool \<times> 'a deepset" where
  "delete P m val =
     (let hash = hashIt P val;
          vals = (case Map_get m hash of None \<Rightarrow> [] | Some vs \<Rightarrow> vs)
      in case findIndex (\<lambda>v. isEqual P v val) vals of
           Some index \<Rightarrow>
             (let vals' = splice1 vals index
              in (True, if length vals' = 0 then Map_delete m hash else Map_set m hash vals'))
         | None \<Rightarrow> (False, m))"

definition clear :: "'a deepset \<Rightarrow> 'a deepset" where
  "clear m = []"

definition size_ds :: "'a deepset \<Rightarrow> nat" where
  "size_ds m = fold (\<lambda>vals n. n + length vals) (Map_values m) 0"

subsection \<open>Iterators\<close>

definition values_ds :: "'a deepset \<Rightarrow> 'a list" where
  "values_ds m = concat (Map_values m)"

definition entries :: "'a deepset \<Rightarrow> ('a \<times> 'a) list" where
  "entries m = map (\<lambda>v. (v, v)) (values_ds m)"

definition keys :: "'a deepset \<Rightarrow> 'a list" where
  "keys m = values_ds m"

definition iterator :: "'a deepset \<Rightarrow> 'a list" where
  "iterator m = values_ds m"

subsection \<open>Set operations\<close>

definition intersection :: "'a providers \<Rightarrow> 'a deepset \<Rightarrow> 'a deepset \<Rightarrow> 'a deepset" where
  "intersection P this otherSet =
     fold (\<lambda>val result. if has P otherSet val then add P result [val] else result)
          (iterator this) (DeepSet P [])"

text \<open>\<open>union\<close> takes one DeepSet or an array of them.\<close>

datatype 'a union_arg = One "'a deepset" | Many "'a deepset list"

definition union_ds :: "'a providers \<Rightarrow> 'a deepset \<Rightarrow> 'a union_arg \<Rightarrow> 'a deepset" where
  "union_ds P this other =
     (let otherSets = (case other of Many sets \<Rightarrow> sets | One s \<Rightarrow> [s]);
          result = clone P this
      in fold (\<lambda>s result. fold (\<lambda>val result. add P result [val]) (values_ds s) result)
              otherSets result)"

definition difference :: "'a providers \<Rightarrow> 'a deepset \<Rightarrow> 'a deepset \<Rightarrow> 'a deepset" where
  "difference P this other =
     fold (\<lambda>val differenceSet. if \<not> has P other val then add P differenceSet [val] else differenceSet)
          (values_ds this) (DeepSet P [])"

definition symmetricDifference :: "'a providers \<Rightarrow> 'a deepset \<Rightarrow> 'a deepset \<Rightarrow> 'a deepset" where
  "symmetricDifference P this other =
     (let s0 = DeepSet P [];
          s1 = fold (\<lambda>val s. if \<not> has P other val then add P s [val] else s) (values_ds this) s0;
          s2 = fold (\<lambda>val s. if \<not> has P this val then add P s [val] else s) (values_ds other) s1
      in s2)"

fun isSubsetOf_loop :: "'a providers \<Rightarrow> 'a list \<Rightarrow> 'a deepset \<Rightarrow> bool" where
  "isSubsetOf_loop P [] other = True"
| "isSubsetOf_loop P (val # rest) other =
     (if \<not> has P other val then False else isSubsetOf_loop P rest other)"

definition isSubsetOf :: "'a providers \<Rightarrow> 'a deepset \<Rightarrow> 'a deepset \<Rightarrow> bool" where
  "isSubsetOf P this other = isSubsetOf_loop P (values_ds this) other"

definition isSupersetOf :: "'a providers \<Rightarrow> 'a deepset \<Rightarrow> 'a deepset \<Rightarrow> bool" where
  "isSupersetOf P this other = isSubsetOf_loop P (iterator other) this"

definition isDisjointFrom :: "'a providers \<Rightarrow> 'a deepset \<Rightarrow> 'a deepset \<Rightarrow> bool" where
  "isDisjointFrom P this other = (size_ds (union_ds P this (One other)) = 0)"

section \<open>An instance of the providers for concrete evaluation\<close>

text \<open>
  Integers hashed by their residue modulo 3 and compared by identity: 1, 4 and 7 collide
  without being equal. Used wherever a theorem is evaluated at a concrete container.
\<close>

definition example_providers :: "int providers" where
  "example_providers = \<lparr>hashIt = (\<lambda>x. x mod 3), isEqual = (=), cloneDeep = (\<lambda>x. x)\<rparr>"

section \<open>The container invariant\<close>

text \<open>
  No two values of a bucket are deep-equal to each other (in either direction of the
  comparison), and no bucket is empty.
\<close>

fun no_equal_pair :: "'a providers \<Rightarrow> 'a list \<Rightarrow> bool" where
  "no_equal_pair P [] = True"
| "no_equal_pair P (x # xs) =
     (\<not> list_ex (\<lambda>y. isEqual P x y \<or> isEqual P y x) xs \<and> no_equal_pair P xs)"

definition invariant :: "'a providers \<Rightarrow> 'a deepset \<Rightarrow> bool" where
  "invariant P m = list_all (\<lambda>(k, vals). vals \<noteq> [] \<and> no_equal_pair P vals) m"

text \<open>
  The keys of a Map are pairwise distinct, and every stored value lies in the bucket
  registered under its own hash.
\<close>

definition keyed :: "'a providers \<Rightarrow> 'a deepset \<Rightarrow> bool" where
  "keyed P m =
     (distinct (map fst m) \<and> list_all (\<lambda>(k, vals). list_all (\<lambda>v. hashIt P v = k) vals) m)"

definition wf :: "'a providers \<Rightarrow> 'a deepset \<Rightarrow> bool" where
  "wf P m \<longleftrightarrow> keyed P m \<and> invariant P m"

text \<open>The container states that the public operations can produce.\<close>

inductive reachable :: "'a providers \<Rightarrow> 'a deepset \<Rightarrow> bool" for P :: "'a providers" where
  r_new: "reachable P (DeepSet P vals)"
| r_add: "reachable P m \<Longrightarrow> reachable P (add P m vals)"
| r_delete: "reachable P m \<Longrightarrow> reachable P (snd (delete P m v))"
| r_clear: "reachable P m \<Longrightarrow> reachable P (clear m)"
| r_clone: "reachable P m \<Longrightarrow> reachable P (clone P m)"
| r_intersection: "reachable P m \<Longrightarrow> reachable P (intersection P m other)"
| r_union: "reachable P m \<Longrightarrow> reachable P (union_ds P m others)"
| r_difference: "reachable P m \<Longrightarrow> reachable P (difference P m other)"
| r_symmetricDifference: "reachable P m \<Longrightarrow> reachable P (symmetricDifference P m other)"

text \<open>The deep-equality class of a value, used to count members.\<close>

definition eq_class :: "'a providers \<Rightarrow> 'a \<Rightarrow> 'a set" where
  "eq_class P x = {y. isEqual P x y}"

section \<open>The iteration order in the specification's words\<close>

text \<open>
  \<open>inserted P [] vs\<close> is the list of values that an insertion sequence \<open>vs\<close> actually
  stores, in insertion order: a value is dropped when an earlier stored value has the
  same hash and is deep-equal to it. \<open>first_seen\<close> lists the distinct hash keys in the
  order of their first introduction. \<open>spec_order\<close> iterates hash key by hash key in
  that order, and within one hash key in insertion order.
\<close>

fun inserted :: "'a providers \<Rightarrow> 'a list \<Rightarrow> 'a list \<Rightarrow> 'a list" where
  "inserted P acc [] = acc"
| "inserted P acc (v # vs) =
     inserted P (if list_ex (\<lambda>x. hashIt P x = hashIt P v \<and> isEqual P x v) acc
                 then acc else acc @ [v]) vs"

fun first_seen :: "int list \<Rightarrow> int list" where
  "first_seen [] = []"
| "first_seen (k # ks) = k # removeAll k (first_seen ks)"

definition spec_order :: "'a providers \<Rightarrow> 'a list \<Rightarrow> 'a list" where
  "spec_order P vs =
     (let stored = inserted P [] vs
      in concat (map (\<lambda>k. filter (\<lambda>v. hashIt P v = k) stored)
                     (first_seen (map (hashIt P) stored))))"

definition grouped :: "'a providers \<Rightarrow> 'a list \<Rightarrow> 'a deepset" where
  "grouped P stored =
     map (\<lambda>k. (k, filter (\<lambda>v. hashIt P v = k) stored)) (first_seen (map (hashIt P) stored))"

section \<open>The object store: containers as JavaScript objects\<close>

text \<open>
  A \<open>DeepSet\<close> instance, its \<open>Map\<close> and the arrays the Map holds are mutable objects
  reached through references. The store has one table per kind of object and one
  allocation counter: \<open>deepsets\<close> gives the \<open>_map\<close> field of a DeepSet object, \<open>maps\<close> the
  entries of a Map object (hash key and the reference of the bucket array, in iteration
  order), \<open>arrays\<close> the contents of an array. Stored values are immutable in the model;
  \<open>cloneDeep\<close> on a value is the provider's function.
\<close>

type_synonym ref = nat

record 'a heap =
  deepsets :: "ref \<Rightarrow> ref option"
  maps :: "ref \<Rightarrow> (int \<times> ref) list option"
  arrays :: "ref \<Rightarrow> 'a list option"
  next_ref :: ref

definition empty_heap :: "'a heap" where
  "empty_heap = \<lparr>deepsets = (\<lambda>r. None), maps = (\<lambda>r. None), arrays = (\<lambda>r. None), next_ref = 0\<rparr>"

text \<open>Allocation of an array literal and of a Map.\<close>

definition new_Array :: "'a heap \<Rightarrow> 'a list \<Rightarrow> ref \<times> 'a heap" where
  "new_Array st xs =
     (next_ref st, st\<lparr>arrays := (arrays st)(next_ref st \<mapsto> xs), next_ref := Suc (next_ref st)\<rparr>)"

definition new_Map :: "'a heap \<Rightarrow> (int \<times> ref) list \<Rightarrow> ref \<times> 'a heap" where
  "new_Map st es =
     (next_ref st, st\<lparr>maps := (maps st)(next_ref st \<mapsto> es), next_ref := Suc (next_ref st)\<rparr>)"

text \<open>
  Reading an array, and reading \<open>this._map\<close> together with its entries. A well-typed
  program holds no dangling reference; the model returns the empty array for one, and
  every operation leaves the store unchanged when \<open>this\<close> is not a DeepSet object.
\<close>

definition Array_get :: "'a heap \<Rightarrow> ref \<Rightarrow> 'a list" where
  "Array_get st a = (case arrays st a of None \<Rightarrow> [] | Some vs \<Rightarrow> vs)"

definition this_map :: "'a heap \<Rightarrow> ref \<Rightarrow> (ref \<times> (int \<times> ref) list) option" where
  "this_map st this =
     (case deepsets st this of
        None \<Rightarrow> None
      | Some mp \<Rightarrow> (case maps st mp of None \<Rightarrow> None | Some es \<Rightarrow> Some (mp, es)))"

text \<open>
  \<open>_add\<close> on the store: \<open>this._map.set(hash, [])\<close> allocates the bucket, \<open>values.push\<close>
  changes the array in place.
\<close>

definition h_p_add :: "'a providers \<Rightarrow> 'a heap \<Rightarrow> ref \<Rightarrow> 'a \<Rightarrow> 'a heap" where
  "h_p_add P st this val =
     (case this_map st this of
        None \<Rightarrow> st
      | Some (mp, es) \<Rightarrow>
          (let hash = hashIt P val;
               (es1, st1) =
                  (if \<not> Map_has es hash
                   then (let (a, st') = new_Array st []
                         in (Map_set es hash a, st'\<lparr>maps := (maps st')(mp \<mapsto> Map_set es hash a)\<rparr>))
                   else (es, st))
           in (case Map_get es1 hash of
                 None \<Rightarrow> st1
               | Some a \<Rightarrow>
                   (let vals = Array_get st1 a
                    in if \<not> list_ex (\<lambda>v. isEqual P v val) vals
                       then st1\<lparr>arrays := (arrays st1)(a \<mapsto> vals @ [val])\<rparr>
                       else st1))))"

text \<open>\<open>add\<close> returns \<open>this\<close> together with the new store.\<close>

definition h_add :: "'a providers \<Rightarrow> 'a heap \<Rightarrow> ref \<Rightarrow> 'a list \<Rightarrow> ref \<times> 'a heap" where
  "h_add P st this vals = (this, fold (\<lambda>val s. h_p_add P s this val) vals st)"

text \<open>
  The constructor allocates the object, runs the field initialiser \<open>_map = new Map()\<close>
  and then the body \<open>this.add(...values)\<close>.
\<close>

definition h_DeepSet :: "'a providers \<Rightarrow> 'a heap \<Rightarrow> 'a list \<Rightarrow> ref \<times> 'a heap" where
  "h_DeepSet P st vals =
     (let this = next_ref st;
          st0 = st\<lparr>next_ref := Suc this\<rparr>;
          (mp, st1) = new_Map st0 [];
          st2 = st1\<lparr>deepsets := (deepsets st1)(this \<mapsto> mp)\<rparr>
      in h_add P st2 this vals)"

text \<open>
  \<open>_.cloneDeep\<close> applied to the Map: a new Map whose entries, in the same order, hold
  new arrays of cloned values.
\<close>

fun cloneDeep_entries ::
  "'a providers \<Rightarrow> 'a heap \<Rightarrow> (int \<times> ref) list \<Rightarrow> (int \<times> ref) list \<times> 'a heap" where
  "cloneDeep_entries P st [] = ([], st)"
| "cloneDeep_entries P st ((k, a) # es) =
     (let (a', st1) = new_Array st (map (cloneDeep P) (Array_get st a));
          (es', st2) = cloneDeep_entries P st1 es
      in ((k, a') # es', st2))"

definition cloneDeep_Map :: "'a providers \<Rightarrow> 'a heap \<Rightarrow> ref \<Rightarrow> ref \<times> 'a heap" where
  "cloneDeep_Map P st mp =
     (let (es', st1) = cloneDeep_entries P st (case maps st mp of None \<Rightarrow> [] | Some es \<Rightarrow> es)
      in new_Map st1 es')"

definition h_clone :: "'a providers \<Rightarrow> 'a heap \<Rightarrow> ref \<Rightarrow> ref \<times> 'a heap" where
  "h_clone P st this =
     (let (newSet, st1) = h_DeepSet P st []
      in (case deepsets st1 this of
            None \<Rightarrow> (newSet, st1)
          | Some mp \<Rightarrow>
              (let (mcopy, st2) = cloneDeep_Map P st1 mp
               in (newSet, st2\<lparr>deepsets := (deepsets st2)(newSet \<mapsto> mcopy)\<rparr>))))"

definition h_has :: "'a providers \<Rightarrow> 'a heap \<Rightarrow> ref \<Rightarrow> 'a \<Rightarrow> bool" where
  "h_has P st this val =
     (case this_map st this of
        None \<Rightarrow> False
      | Some (mp, es) \<Rightarrow>
          (let hash = hashIt P val;
               vals = (case Map_get es hash of None \<Rightarrow> [] | Some a \<Rightarrow> Array_get st a)
           in list_ex (\<lambda>v. isEqual P v val) vals))"

text \<open>
  \<open>delete\<close> on the store: \<open>values.splice(index, 1)\<close> changes the array in place, then the
  Map entry is removed or set again.
\<close>

definition h_delete :: "'a providers \<Rightarrow> 'a heap \<Rightarrow> ref \<Rightarrow> 'a \<Rightarrow> bool \<times> 'a heap" where
  "h_delete P st this val =
     (case this_map st this of
        None \<Rightarrow> (False, st)
      | Some (mp, es) \<Rightarrow>
          (let hash = hashIt P val
           in (case Map_get es hash of
                 None \<Rightarrow> (False, st)
               | Some a \<Rightarrow>
                   (case findIndex (\<lambda>v. isEqual P v val) (Array_get st a) of
                      None \<Rightarrow> (False, st)
                    | Some index \<Rightarrow>
                        (let vals' = splice1 (Array_get st a) index;
                             st1 = st\<lparr>arrays := (arrays st)(a \<mapsto> vals')\<rparr>
                         in if length vals' = 0
                            then (True, st1\<lparr>maps := (maps st1)(mp \<mapsto> Map_delete es hash)\<rparr>)
                            else (True, st1\<lparr>maps := (maps st1)(mp \<mapsto> Map_set es hash a)\<rparr>))))))"

definition h_clear :: "'a heap \<Rightarrow> ref \<Rightarrow> 'a heap" where
  "h_clear st this =
     (case this_map st this of
        None \<Rightarrow> st
      | Some (mp, es) \<Rightarrow> st\<lparr>maps := (maps st)(mp \<mapsto> [])\<rparr>)"

definition h_size :: "'a heap \<Rightarrow> ref \<Rightarrow> nat" where
  "h_size st this =
     (case this_map st this of
        None \<Rightarrow> 0
      | Some (mp, es) \<Rightarrow> fold (\<lambda>a n. n + length (Array_get st a)) (Map_values es) 0)"

text \<open>
  The container state that a DeepSet object denotes in a store: its Map with every
  array reference replaced by the array's contents.
\<close>

definition deref :: "'a heap \<Rightarrow> (int \<times> ref) list \<Rightarrow> 'a deepset" where
  "deref st es = map (\<lambda>(k, a). (k, Array_get st a)) es"

definition view :: "'a heap \<Rightarrow> ref \<Rightarrow> 'a deepset" where
  "view st this = (case this_map st this of None \<Rightarrow> [] | Some (mp, es) \<Rightarrow> deref st es)"

text \<open>The mutating calls of the public interface, and sequences of them on several objects.\<close>

datatype 'a mutation = Add "'a list" | Delete 'a | Clear

fun h_mutate :: "'a providers \<Rightarrow> 'a heap \<Rightarrow> ref \<Rightarrow> 'a mutation \<Rightarrow> 'a heap" where
  "h_mutate P st this (Add vals) = snd (h_add P st this vals)"
| "h_mutate P st this (Delete val) = snd (h_delete P st this val)"
| "h_mutate P st this Clear = h_clear st this"

fun mutate :: "'a providers \<Rightarrow> 'a deepset \<Rightarrow> 'a mutation \<Rightarrow> 'a deepset" where
  "mutate P m (Add vals) = add P m vals"
| "mutate P m (Delete val) = snd (delete P m val)"
| "mutate P m Clear = clear m"

definition h_run :: "'a providers \<Rightarrow> 'a heap \<Rightarrow> (ref \<times> 'a mutation) list \<Rightarrow> 'a heap" where
  "h_run P st script = fold (\<lambda>(r, mu) s. h_mutate P s r mu) script st"

text \<open>
  \<open>run_on P this script m\<close> applies to the container state \<open>m\<close> those calls of the script
  that are addressed to \<open>this\<close>, and ignores the others.
\<close>

definition run_on ::
  "'a providers \<Rightarrow> ref \<Rightarrow> (ref \<times> 'a mutation) list \<Rightarrow> 'a deepset \<Rightarrow> 'a deepset" where
  "run_on P this script m = fold (\<lambda>(r, mu) s. if r = this then mutate P s mu else s) script m"

text \<open>
  A DeepSet object is live in a store when its Map exists, all its references were
  allocated, and no array is registered under two keys. Two objects are separate when
  they are different objects with different Maps and share no array.
\<close>

definition live :: "'a heap \<Rightarrow> ref \<Rightarrow> bool" where
  "live st this =
     (case this_map st this of
        None \<Rightarrow> False
      | Some (mp, es) \<Rightarrow>
          this < next_ref st \<and> mp < next_ref st \<and> distinct (map snd es) \<and>
          list_all (\<lambda>(k, a). a < next_ref st) es)"

definition separate :: "'a heap \<Rightarrow> ref \<Rightarrow> ref \<Rightarrow> bool" where
  "separate st r1 r2 =
     (r1 \<noteq> r2 \<and>
      (case this_map st r1 of
         None \<Rightarrow> False
       | Some (m1, es1) \<Rightarrow>
           (case this_map st r2 of
              None \<Rightarrow> False
            | Some (m2, es2) \<Rightarrow> m1 \<noteq> m2 \<and> list_all (\<lambda>(k, a). a \<notin> set (map snd es2)) es1)))"

definition refs_of :: "(int \<times> ref) list \<Rightarrow> ref set" where
  "refs_of es = snd ` set es"

text \<open>
  \<open>frame st st' this\<close>: the store \<open>st'\<close> differs from \<open>st\<close> only in the Map of \<open>this\<close>, in the
  arrays of \<open>this\<close> and in newly allocated objects, and the arrays of \<open>this\<close> in \<open>st'\<close> are
  old arrays of \<open>this\<close> or new ones.
\<close>

definition frame :: "'a heap \<Rightarrow> 'a heap \<Rightarrow> ref \<Rightarrow> bool" where
  "frame st st' this \<longleftrightarrow>
     (\<exists>mp es es'. this_map st this = Some (mp, es) \<and> this_map st' this = Some (mp, es') \<and>
        deepsets st' = deepsets st \<and> next_ref st \<le> next_ref st' \<and>
        (\<forall>r. r \<noteq> mp \<longrightarrow> maps st' r = maps st r) \<and>
        (\<forall>a. a < next_ref st \<longrightarrow> a \<notin> refs_of es \<longrightarrow> arrays st' a = arrays st a) \<and>
        distinct (map snd es') \<and>
        (\<forall>a\<in>refs_of es'. a \<in> refs_of es \<or> (next_ref st \<le> a \<and> a < next_ref st')))"

definition preserves_others :: "'a heap \<Rightarrow> 'a heap \<Rightarrow> ref \<Rightarrow> bool" where
  "preserves_others st st' this \<longleftrightarrow>
     (\<forall>other. live st other \<and> separate st this other \<longrightarrow>
        live st' other \<and> separate st' this other \<and> view st' other = view st other)"

text \<open>A store holding one container, for concrete evaluation.\<close>

definition example_heap :: "int heap" where
  "example_heap = snd (h_DeepSet example_providers empty_heap [1, 2, 4])"

section \<open>Basic facts about the Map and Array operations\<close>

lemma Map_get_set: "Map_get (Map_set m k v) k' = (if k' = k then Some v else Map_get m k')"
  by (induction m) auto

lemma Map_get_delete: "Map_get (Map_delete m k) k' = (if k' = k then None else Map_get m k')"
  by (induction m) auto

lemma Map_get_None_iff: "Map_get m k = None \<longleftrightarrow> k \<notin> fst ` set m"
  by (induction m) (auto split: if_splits)

lemma Map_get_Some_mem: "Map_get m k = Some v \<Longrightarrow> (k, v) \<in> set m"
  by (induction m) (auto split: if_splits)

lemma Map_get_distinct: "distinct (map fst m) \<Longrightarrow> (k, v) \<in> set m \<Longrightarrow> Map_get m k = Some v"
  by (induction m) (auto simp: rev_image_eqI)

lemma Map_set_same: "Map_get m k = Some v \<Longrightarrow> Map_set m k v = m"
  by (induction m) (auto split: if_splits)

lemma Map_set_set: "Map_set (Map_set m k v) k v' = Map_set m k v'"
  by (induction m) auto

lemma Map_delete_absent: "Map_get m k = None \<Longrightarrow> Map_delete m k = m"
  by (induction m) (auto split: if_splits)

lemma Map_delete_set_new: "Map_get m k = None \<Longrightarrow> Map_delete (Map_set m k v) k = m"
  by (induction m) (auto split: if_splits)

lemma Map_delete_set: "Map_delete (Map_set m k v) k = Map_delete m k"
  by (induction m) auto

lemma Map_set_new: "Map_get m k = None \<Longrightarrow> Map_set m k v = m @ [(k, v)]"
  by (induction m) (auto split: if_splits)

lemma list_ex_False_findIndex: "\<not> list_ex p xs \<Longrightarrow> findIndex p xs = None"
  by (induction xs) auto

lemma findIndex_append_last:
  "\<not> list_ex p xs \<Longrightarrow> p x \<Longrightarrow> findIndex p (xs @ [x]) = Some (length xs)"
  by (induction xs) auto

lemma splice1_append_last: "splice1 (xs @ [x]) (length xs) = xs"
  by (simp add: splice1_def)

section \<open>What \<open>_add\<close>, \<open>has\<close> and \<open>size\<close> compute\<close>

lemma p_add_cases:
  "p_add P m v =
     (case Map_get m (hashIt P v) of
        None \<Rightarrow> Map_set m (hashIt P v) [v]
      | Some vals \<Rightarrow> if list_ex (\<lambda>x. isEqual P x v) vals then m
                     else Map_set m (hashIt P v) (vals @ [v]))"
  by (auto simp: p_add_def Map_has_def Map_get_set Map_set_set Let_def split: option.splits)

lemma p_add_present: "has P m v \<Longrightarrow> p_add P m v = m"
  by (auto simp: p_add_cases has_def split: option.splits)

lemma has_p_add_self: "isEqual P v v \<Longrightarrow> has P (p_add P m v) v"
  by (auto simp: p_add_cases has_def Map_get_set split: option.splits)

lemma p_add_idem: "isEqual P v v \<Longrightarrow> p_add P (p_add P m v) v = p_add P m v"
  by (simp add: p_add_present has_p_add_self)

lemma fold_length_sum: "fold (\<lambda>vals n. n + length vals) xs a = a + sum_list (map length xs)"
  by (induction xs arbitrary: a) auto

lemma size_ds_sum: "size_ds m = sum_list (map (\<lambda>(k, vals). length vals) m)"
  by (simp add: size_ds_def Map_values_def fold_length_sum comp_def case_prod_unfold)

lemma size_ds_values: "size_ds m = length (values_ds m)"
  by (simp add: size_ds_sum values_ds_def Map_values_def length_concat comp_def case_prod_unfold)

lemma size_clone: "size_ds (clone P m) = size_ds m"
  by (induction m) (auto simp: size_ds_sum clone_def)

lemma size_Map_delete:
  "distinct (map fst m) \<Longrightarrow> Map_get m k = Some vs \<Longrightarrow>
   size_ds m = size_ds (Map_delete m k) + length vs"
proof (induction m)
  case Nil
  then show ?case by simp
next
  case (Cons e m)
  obtain k' vs' where e: "e = (k', vs')" by (cases e)
  show ?case
  proof (cases "k' = k")
    case True
    with Cons.prems e have "Map_get m k = None"
      by (simp add: Map_get_None_iff)
    with True Cons.prems e show ?thesis
      by (simp add: size_ds_sum Map_delete_absent)
  next
    case False
    with Cons e show ?thesis
      by (simp add: size_ds_sum)
  qed
qed

lemma has_Map_delete_empty:
  "Map_get m k = Some [] \<Longrightarrow> has P (Map_delete m k) x = has P m x"
  by (auto simp: has_def Map_get_delete Let_def)

lemma example_providers_ok: "providers_ok example_providers"
  by (simp add: providers_ok_def equivalence_def hash_consistent_def clone_faithful_def
        example_providers_def)

section \<open>Adding a value twice\<close>

text \<open>
  Claim C5. For every container state and every value \<open>v\<close> (deep-equal to itself, as the
  equality provider guarantees), \<open>add(v); add(v)\<close> leaves the container in the same state
  as a single \<open>add(v)\<close>, whether the two values are passed in two calls or in one; in
  particular size and membership are the same. The second insertion is a no-op that
  returns a state, not an error.
\<close>

theorem add_idempotent:
  assumes "isEqual P v v"
  shows "add P (add P m [v]) [v] = add P m [v] \<and> add P m [v, v] = add P m [v] \<and>
         size_ds (add P (add P m [v]) [v]) = size_ds (add P m [v]) \<and>
         (\<forall>x. has P (add P (add P m [v]) [v]) x = has P (add P m [v]) x)"
  using assms by (simp add: add_def p_add_idem)

theorem add_idempotent_witness:
  "isEqual example_providers 4 4 \<and>
   add example_providers (add example_providers (DeepSet example_providers [1, 2]) [4]) [4]
     = [(1, [1, 4]), (2, [2])] \<and>
   add example_providers (DeepSet example_providers [1, 2]) [4] = [(1, [1, 4]), (2, [2])]"
proof -
  have h: "isEqual example_providers 4 4"
    by (simp add: example_providers_def)
  have e: "add example_providers (DeepSet example_providers [1, 2]) [4] = [(1, [1, 4]), (2, [2])]"
    by code_simp
  show ?thesis
    using add_idempotent [OF h, of "DeepSet example_providers [1, 2]"] h e by simp
qed

section \<open>Adding then deleting\<close>

text \<open>
  Claim C4 as stated fails when \<open>v\<close> is already a member: \<open>add(v)\<close> then changes nothing
  and \<open>delete(v)\<close> removes the member that was there before. On the container \<open>{1}\<close>,
  \<open>add(1); delete(1)\<close> returns true and leaves size 0 and \<open>has(1)\<close> false, where size was 1
  and \<open>has(1)\<close> true before the add.
\<close>

theorem add_delete_present_counterexample:
  "size_ds (DeepSet example_providers [1]) = 1 \<and>
   has example_providers (DeepSet example_providers [1]) 1 \<and>
   fst (delete example_providers (add example_providers (DeepSet example_providers [1]) [1]) 1) \<and>
   size_ds (snd (delete example_providers
                  (add example_providers (DeepSet example_providers [1]) [1]) 1)) = 0 \<and>
   \<not> has example_providers
        (snd (delete example_providers
               (add example_providers (DeepSet example_providers [1]) [1]) 1)) 1"
  by code_simp

text \<open>
  Claim C4, amended. For every container state (a Map, so with pairwise distinct keys)
  and every value \<open>v\<close> that is not a member before the add, \<open>add(v); delete(v)\<close> makes the
  delete return true and restores the size and the membership of every value.
\<close>

theorem add_delete_absent:
  assumes "distinct (map fst m)" and "isEqual P v v" and "\<not> has P m v"
  shows "fst (delete P (add P m [v]) v) = True \<and>
         size_ds (snd (delete P (add P m [v]) v)) = size_ds m \<and>
         (\<forall>x. has P (snd (delete P (add P m [v]) v)) x = has P m x)"
proof (cases "Map_get m (hashIt P v)")
  case None
  then have "delete P (add P m [v]) v = (True, m)"
    using assms(2)
    by (simp add: add_def p_add_cases delete_def Map_get_set splice1_def Map_delete_set_new)
  then show ?thesis by simp
next
  case (Some vals)
  with assms(3) have nex: "\<not> list_ex (\<lambda>x. isEqual P x v) vals"
    by (simp add: has_def)
  have idx: "findIndex (\<lambda>x. isEqual P x v) (vals @ [v]) = Some (length vals)"
    using nex assms(2) by (rule findIndex_append_last)
  show ?thesis
  proof (cases "vals = []")
    case True
    with Some nex assms(2) have d: "delete P (add P m [v]) v = (True, Map_delete m (hashIt P v))"
      by (simp add: add_def p_add_cases delete_def Map_get_set splice1_def Map_delete_set)
    from size_Map_delete[OF assms(1) Some] True
    have "size_ds (Map_delete m (hashIt P v)) = size_ds m" by simp
    moreover from Some True have "\<forall>x. has P (Map_delete m (hashIt P v)) x = has P m x"
      by (simp add: has_Map_delete_empty)
    ultimately show ?thesis using d by simp
  next
    case False
    with Some nex idx have "delete P (add P m [v]) v = (True, m)"
      by (simp add: add_def p_add_cases delete_def Map_get_set splice1_append_last
            Map_set_set Map_set_same)
    then show ?thesis by simp
  qed
qed

theorem add_delete_absent_witness:
  "distinct (map fst (DeepSet example_providers [1, 2])) \<and>
   isEqual example_providers 4 4 \<and>
   \<not> has example_providers (DeepSet example_providers [1, 2]) 4 \<and>
   fst (delete example_providers (add example_providers (DeepSet example_providers [1, 2]) [4]) 4)
     = True \<and>
   size_ds (snd (delete example_providers
                  (add example_providers (DeepSet example_providers [1, 2]) [4]) 4))
     = size_ds (DeepSet example_providers [1, 2])"
proof -
  have h1: "distinct (map fst (DeepSet example_providers [1, 2]))"
    by code_simp
  have h2: "isEqual example_providers 4 4"
    by (simp add: example_providers_def)
  have h3: "\<not> has example_providers (DeepSet example_providers [1, 2]) 4"
    by code_simp
  show ?thesis
    using add_delete_absent [OF h1 h2 h3] h1 h2 h3 by simp
qed

section \<open>Deleting an absent value\<close>

text \<open>
  Claim C7. If no stored value is deep-equal to \<open>v\<close> (that is, \<open>has(v)\<close> is false), then
  \<open>delete(v)\<close> returns false and the container state is exactly the state before the call.
\<close>

theorem delete_absent:
  assumes "\<not> has P m v"
  shows "delete P m v = (False, m)"
proof -
  let ?vals = "case Map_get m (hashIt P v) of None \<Rightarrow> [] | Some vs \<Rightarrow> vs"
  from assms have "\<not> list_ex (\<lambda>x. isEqual P x v) ?vals"
    by (simp add: has_def)
  then have "findIndex (\<lambda>x. isEqual P x v) ?vals = None"
    by (rule list_ex_False_findIndex)
  then show ?thesis
    by (simp add: delete_def)
qed

theorem delete_absent_witness:
  "\<not> has example_providers (DeepSet example_providers [1, 2, 4]) 7 \<and>
   delete example_providers (DeepSet example_providers [1, 2, 4]) 7
     = (False, DeepSet example_providers [1, 2, 4])"
proof -
  have h: "\<not> has example_providers (DeepSet example_providers [1, 2, 4]) 7"
    by code_simp
  show ?thesis
    using delete_absent [OF h] h by simp
qed

section \<open>Preservation of the container invariant\<close>

lemma equivalence_refl: "equivalence P \<Longrightarrow> isEqual P a a"
  unfolding equivalence_def by blast
lemma equivalence_sym: "equivalence P \<Longrightarrow> isEqual P a b \<Longrightarrow> isEqual P b a"
  unfolding equivalence_def by blast
lemma equivalence_trans: "equivalence P \<Longrightarrow> isEqual P a b \<Longrightarrow> isEqual P b c \<Longrightarrow> isEqual P a c"
  unfolding equivalence_def by blast
lemma hash_consistentD: "hash_consistent P \<Longrightarrow> isEqual P a b \<Longrightarrow> hashIt P a = hashIt P b"
  by (simp add: hash_consistent_def)
lemma clone_faithfulD: "clone_faithful P \<Longrightarrow> isEqual P (cloneDeep P a) a"
  by (simp add: clone_faithful_def)

lemma no_equal_pair_snoc:
  "no_equal_pair P (xs @ [v]) \<longleftrightarrow>
     no_equal_pair P xs \<and> \<not> list_ex (\<lambda>x. isEqual P x v \<or> isEqual P v x) xs"
  by (induction xs) (auto simp: list_ex_iff)

lemma set_splice1: "set (splice1 xs i) \<subseteq> set xs"
  by (auto simp: splice1_def dest: in_set_takeD in_set_dropD)

lemma splice1_Cons_Suc: "splice1 (x # xs) (Suc i) = x # splice1 xs i"
  by (simp add: splice1_def)

lemma no_equal_pair_splice1: "no_equal_pair P xs \<Longrightarrow> no_equal_pair P (splice1 xs i)"
proof (induction xs arbitrary: i)
  case Nil
  then show ?case by (simp add: splice1_def)
next
  case (Cons x xs)
  show ?case
  proof (cases i)
    case 0
    with Cons.prems show ?thesis by (simp add: splice1_def)
  next
    case (Suc j)
    from Cons.prems have "\<not> list_ex (\<lambda>y. isEqual P x y \<or> isEqual P y x) (splice1 xs j)"
      using set_splice1[of xs j] by (auto simp: list_ex_iff)
    with Cons Suc show ?thesis by (simp add: splice1_Cons_Suc)
  qed
qed

lemma no_equal_pair_clone:
  assumes "equivalence P" and "clone_faithful P" and "no_equal_pair P xs"
  shows "no_equal_pair P (map (cloneDeep P) xs)"
  using assms(3)
proof (induction xs)
  case Nil
  then show ?case by simp
next
  case (Cons x xs)
  have "\<not> (isEqual P (cloneDeep P x) (cloneDeep P y) \<or> isEqual P (cloneDeep P y) (cloneDeep P x))"
    if "y \<in> set xs" for y
  proof
    assume "isEqual P (cloneDeep P x) (cloneDeep P y) \<or> isEqual P (cloneDeep P y) (cloneDeep P x)"
    then have xy: "isEqual P (cloneDeep P x) (cloneDeep P y)"
      using equivalence_sym[OF assms(1)] by blast
    have "isEqual P x (cloneDeep P x)"
      by (rule equivalence_sym[OF assms(1) clone_faithfulD[OF assms(2)]])
    from equivalence_trans[OF assms(1) this xy] have "isEqual P x (cloneDeep P y)" .
    from equivalence_trans[OF assms(1) this clone_faithfulD[OF assms(2)]] have "isEqual P x y" .
    with that Cons.prems show False by (simp add: list_ex_iff)
  qed
  then have "\<not> list_ex (\<lambda>y. isEqual P (cloneDeep P x) y \<or> isEqual P y (cloneDeep P x))
                 (map (cloneDeep P) xs)"
    unfolding list_ex_iff by fastforce
  moreover from Cons have "no_equal_pair P (map (cloneDeep P) xs)" by simp
  ultimately show ?case by simp
qed

lemma invariant_Map_set:
  "invariant P m \<Longrightarrow> vals \<noteq> [] \<Longrightarrow> no_equal_pair P vals \<Longrightarrow> invariant P (Map_set m k vals)"
  by (induction m) (auto simp: invariant_def)

lemma invariant_Map_delete: "invariant P m \<Longrightarrow> invariant P (Map_delete m k)"
  by (induction m) (auto simp: invariant_def)

lemma invariant_Map_get:
  "invariant P m \<Longrightarrow> Map_get m k = Some vals \<Longrightarrow> vals \<noteq> [] \<and> no_equal_pair P vals"
  by (induction m) (auto simp: invariant_def split: if_splits)

lemma invariant_p_add:
  assumes "equivalence P" and "invariant P m"
  shows "invariant P (p_add P m v)"
proof (cases "Map_get m (hashIt P v)")
  case None
  with assms(2) show ?thesis
    by (simp add: p_add_cases invariant_Map_set)
next
  case (Some vals)
  show ?thesis
  proof (cases "list_ex (\<lambda>x. isEqual P x v) vals")
    case True
    with Some assms(2) show ?thesis by (simp add: p_add_cases)
  next
    case False
    then have "\<not> list_ex (\<lambda>x. isEqual P x v \<or> isEqual P v x) vals"
      using equivalence_sym[OF assms(1)] by (auto simp: list_ex_iff)
    moreover from invariant_Map_get[OF assms(2) Some] have "no_equal_pair P vals" by simp
    ultimately have "no_equal_pair P (vals @ [v])"
      by (simp add: no_equal_pair_snoc)
    with Some False assms(2) show ?thesis
      by (simp add: p_add_cases invariant_Map_set)
  qed
qed

lemma invariant_add:
  "equivalence P \<Longrightarrow> invariant P m \<Longrightarrow> invariant P (add P m vals)"
  by (induction vals arbitrary: m) (auto simp: add_def invariant_p_add)

lemma invariant_empty: "invariant P empty_set"
  by (simp add: invariant_def empty_set_def)

lemma invariant_DeepSet: "equivalence P \<Longrightarrow> invariant P (DeepSet P vals)"
  by (simp add: DeepSet_def invariant_add invariant_empty)

lemma invariant_delete:
  assumes "invariant P m"
  shows "invariant P (snd (delete P m v))"
proof (cases "Map_get m (hashIt P v)")
  case None
  with assms show ?thesis by (simp add: delete_def)
next
  case (Some vals)
  note get = Some
  from invariant_Map_get[OF assms get] have sp: "no_equal_pair P (splice1 vals i)" for i
    by (simp add: no_equal_pair_splice1)
  show ?thesis
  proof (cases "findIndex (\<lambda>x. isEqual P x v) vals")
    case None
    with get assms show ?thesis by (simp add: delete_def)
  next
    case (Some i)
    show ?thesis
    proof (cases "splice1 vals i = []")
      case True
      with get Some assms show ?thesis
        by (simp add: delete_def invariant_Map_delete)
    next
      case False
      with get Some invariant_Map_set[OF assms False sp, where k = "hashIt P v"] show ?thesis
        by (simp add: delete_def)
    qed
  qed
qed

lemma invariant_clear: "invariant P (clear m)"
  by (simp add: clear_def invariant_def)

lemma invariant_clone:
  assumes "equivalence P" and "clone_faithful P" and "invariant P m"
  shows "invariant P (clone P m)"
  using assms(3) no_equal_pair_clone[OF assms(1,2)]
  by (induction m) (auto simp: invariant_def clone_def)

lemma fold_cond_add:
  "fold (\<lambda>val s. if c val then add P s [val] else s) vals s0 = add P s0 (filter c vals)"
  by (induction vals arbitrary: s0) (auto simp: add_def)

lemma fold_add_singletons: "fold (\<lambda>val s. add P s [val]) vals s0 = add P s0 vals"
  by (induction vals arbitrary: s0) (auto simp: add_def)

lemma add_append: "add P m (xs @ ys) = add P (add P m xs) ys"
  by (simp add: add_def)

lemma DeepSet_Nil: "DeepSet P [] = empty_set"
  by (simp add: DeepSet_def add_def)

lemma intersection_alt:
  "intersection P this other = add P empty_set (filter (has P other) (values_ds this))"
  by (simp add: intersection_def fold_cond_add DeepSet_Nil iterator_def)

lemma difference_alt:
  "difference P this other = add P empty_set (filter (\<lambda>v. \<not> has P other v) (values_ds this))"
  by (simp add: difference_def fold_cond_add DeepSet_Nil)

lemma symmetricDifference_alt:
  "symmetricDifference P this other =
     add P empty_set (filter (\<lambda>v. \<not> has P other v) (values_ds this) @
                      filter (\<lambda>v. \<not> has P this v) (values_ds other))"
  by (simp add: symmetricDifference_def fold_cond_add DeepSet_Nil add_append)

lemma fold_fold_add:
  "fold (\<lambda>s result. fold (\<lambda>val result. add P result [val]) (values_ds s) result) sets r
     = add P r (concat (map values_ds sets))"
proof (induction sets arbitrary: r)
  case Nil
  show ?case by (simp add: add_def)
next
  case (Cons s sets)
  then show ?case by (simp add: fold_add_singletons add_append)
qed

lemma union_ds_alt:
  "union_ds P this other =
     add P (clone P this)
       (concat (map values_ds (case other of Many sets \<Rightarrow> sets | One s \<Rightarrow> [s])))"
  by (simp add: union_ds_def fold_fold_add)

text \<open>
  Claim C8. With providers that meet their contract, every operation that produces or
  changes a container (the constructor, \<open>add\<close>, \<open>delete\<close>, \<open>clear\<close>, \<open>clone\<close>,
  \<open>intersection\<close>, \<open>union\<close>, \<open>difference\<close>, \<open>symmetricDifference\<close>) yields a container in
  which no two values of one bucket are deep-equal to each other and no empty bucket is
  registered, provided the receiver satisfied this invariant before the call. The other
  operations only read the container.
\<close>

theorem invariant_preserved:
  assumes "providers_ok P" and "invariant P m"
  shows "invariant P (DeepSet P vals) \<and>
         invariant P (add P m vals) \<and>
         invariant P (snd (delete P m v)) \<and>
         invariant P (clear m) \<and>
         invariant P (clone P m) \<and>
         invariant P (intersection P m other) \<and>
         invariant P (union_ds P m others) \<and>
         invariant P (difference P m other) \<and>
         invariant P (symmetricDifference P m other)"
proof -
  from assms(1) have e: "equivalence P" and c: "clone_faithful P"
    by (simp_all add: providers_ok_def)
  show ?thesis
    using assms(2) 
    by (simp add: invariant_DeepSet[OF e] invariant_add[OF e] invariant_delete invariant_clear
          invariant_clone[OF e c] intersection_alt difference_alt symmetricDifference_alt
          union_ds_alt invariant_empty)
qed

theorem invariant_preserved_witness:
  "providers_ok example_providers \<and>
   invariant example_providers (DeepSet example_providers [1, 2, 4]) \<and>
   invariant example_providers (snd (delete example_providers (DeepSet example_providers [1, 2, 4]) 2)) \<and>
   snd (delete example_providers (DeepSet example_providers [1, 2, 4]) 2) = [(1, [1, 4])] \<and>
   invariant example_providers
     (union_ds example_providers (DeepSet example_providers [1, 2, 4])
        (One (DeepSet example_providers [7, 3])))"
proof -
  have i: "invariant example_providers (DeepSet example_providers [1, 2, 4])"
    by code_simp
  have d: "snd (delete example_providers (DeepSet example_providers [1, 2, 4]) 2) = [(1, [1, 4])]"
    by code_simp
  from invariant_preserved[OF example_providers_ok i,
         where v = 2 and others = "One (DeepSet example_providers [7, 3])"]
       i d example_providers_ok
  show ?thesis by simp
qed

section \<open>Keying and membership\<close>

lemma has_alt:
  "has P m x = list_ex (\<lambda>v. isEqual P v x) (case Map_get m (hashIt P x) of None \<Rightarrow> [] | Some vs \<Rightarrow> vs)"
  by (simp add: has_def)

lemma map_fst_Map_set:
  "map fst (Map_set m k v) = (if k \<in> fst ` set m then map fst m else map fst m @ [k])"
  by (induction m) force+

lemma distinct_Map_set: "distinct (map fst m) \<Longrightarrow> distinct (map fst (Map_set m k v))"
  by (simp add: map_fst_Map_set)

lemma Map_delete_filter: "Map_delete m k = filter (\<lambda>e. fst e \<noteq> k) m"
  by (induction m) auto

lemma set_Map_delete: "set (Map_delete m k) = {e \<in> set m. fst e \<noteq> k}"
  by (simp add: Map_delete_filter)

lemma distinct_Map_delete: "distinct (map fst m) \<Longrightarrow> distinct (map fst (Map_delete m k))"
  by (simp add: Map_delete_filter distinct_map_filter)

lemma keyed_Map_set:
  "keyed P m \<Longrightarrow> list_all (\<lambda>v. hashIt P v = k) vals \<Longrightarrow> keyed P (Map_set m k vals)"
proof -
  have "list_all (\<lambda>(k, vals). list_all (\<lambda>v. hashIt P v = k) vals) m \<Longrightarrow>
        list_all (\<lambda>v. hashIt P v = k) vals \<Longrightarrow>
        list_all (\<lambda>(k, vals). list_all (\<lambda>v. hashIt P v = k) vals) (Map_set m k vals)"
    by (induction m) auto
  then show "keyed P m \<Longrightarrow> list_all (\<lambda>v. hashIt P v = k) vals \<Longrightarrow> keyed P (Map_set m k vals)"
    by (simp add: keyed_def distinct_Map_set)
qed

lemma keyed_Map_delete: "keyed P m \<Longrightarrow> keyed P (Map_delete m k)"
  by (auto simp: keyed_def distinct_Map_delete list_all_iff set_Map_delete)

lemma keyed_Map_get:
  "keyed P m \<Longrightarrow> Map_get m k = Some vals \<Longrightarrow> list_all (\<lambda>v. hashIt P v = k) vals"
  by (auto simp: keyed_def list_all_iff dest!: Map_get_Some_mem)

lemma keyed_p_add:
  assumes "keyed P m"
  shows "keyed P (p_add P m v)"
proof (cases "Map_get m (hashIt P v)")
  case None
  with assms show ?thesis
    by (simp add: p_add_cases keyed_Map_set)
next
  case (Some vals)
  from keyed_Map_get[OF assms Some] have "list_all (\<lambda>x. hashIt P x = hashIt P v) (vals @ [v])"
    by simp
  from keyed_Map_set[OF assms this] Some assms show ?thesis
    by (simp add: p_add_cases)
qed

lemma keyed_add: "keyed P m \<Longrightarrow> keyed P (add P m vals)"
  by (induction vals arbitrary: m) (auto simp: add_def keyed_p_add)

lemma keyed_empty: "keyed P empty_set"
  by (simp add: keyed_def empty_set_def)

lemma splice1_subset_all: "list_all p xs \<Longrightarrow> list_all p (splice1 xs i)"
  using set_splice1[of xs i] by (auto simp: list_all_iff)

lemma keyed_delete:
  assumes "keyed P m"
  shows "keyed P (snd (delete P m v))"
proof (cases "Map_get m (hashIt P v)")
  case None
  with assms show ?thesis by (simp add: delete_def)
next
  case (Some vals)
  from keyed_Map_get[OF assms Some]
  have "list_all (\<lambda>x. hashIt P x = hashIt P v) (splice1 vals i)" for i
    by (rule splice1_subset_all)
  from keyed_Map_set[OF assms this] keyed_Map_delete[OF assms] Some assms show ?thesis
    by (simp add: delete_def Let_def split: option.splits)
qed

lemma clone_hash:
  "hash_consistent P \<Longrightarrow> clone_faithful P \<Longrightarrow> hashIt P (cloneDeep P v) = hashIt P v"
  by (simp add: hash_consistentD clone_faithfulD)

lemma map_fst_clone: "map fst (clone P m) = map fst m"
  by (induction m) (auto simp: clone_def)

lemma keyed_clone:
  assumes "hash_consistent P" and "clone_faithful P" and "keyed P m"
  shows "keyed P (clone P m)"
proof -
  have "list_all (\<lambda>(k, vals). list_all (\<lambda>v. hashIt P v = k) vals) m \<Longrightarrow>
        list_all (\<lambda>(k, vals). list_all (\<lambda>v. hashIt P v = k) vals) (clone P m)"
    by (induction m) (auto simp: clone_def list_all_iff clone_hash[OF assms(1,2)])
  with assms(3) show ?thesis
    by (simp add: keyed_def map_fst_clone)
qed

lemma Map_get_clone:
  "Map_get (clone P m) k = map_option (map (cloneDeep P)) (Map_get m k)"
  by (induction m) (auto simp: clone_def)

lemma has_iff_values:
  assumes "hash_consistent P" and "keyed P m"
  shows "has P m x \<longleftrightarrow> (\<exists>y\<in>set (values_ds m). isEqual P y x)"
proof
  assume "has P m x"
  then obtain vals where g: "Map_get m (hashIt P x) = Some vals"
    by (cases "Map_get m (hashIt P x)") (auto simp: has_alt)
  with \<open>has P m x\<close> obtain y where y: "y \<in> set vals" "isEqual P y x"
    by (auto simp: has_alt list_ex_iff)
  from Map_get_Some_mem[OF g] y(1) have "y \<in> set (values_ds m)"
    by (force simp: values_ds_def Map_values_def)
  with y(2) show "\<exists>y\<in>set (values_ds m). isEqual P y x" ..
next
  assume "\<exists>y\<in>set (values_ds m). isEqual P y x"
  then obtain k vals y where kv: "(k, vals) \<in> set m" and y: "y \<in> set vals" "isEqual P y x"
    by (auto simp: values_ds_def Map_values_def)
  from assms(2) kv y have "hashIt P y = k"
    by (auto simp: keyed_def list_all_iff)
  with hash_consistentD[OF assms(1) y(2)] have "hashIt P x = k" by simp
  with assms(2) kv have "Map_get m (hashIt P x) = Some vals"
    by (simp add: keyed_def Map_get_distinct)
  with y show "has P m x"
    by (auto simp: has_alt list_ex_iff)
qed

lemma has_cong:
  assumes "equivalence P" and "hash_consistent P" and "isEqual P x x'"
  shows "has P m x = has P m x'"
proof -
  have h: "hashIt P x = hashIt P x'"
    by (rule hash_consistentD[OF assms(2,3)])
  have "isEqual P y x \<longleftrightarrow> isEqual P y x'" for y
    using equivalence_trans[OF assms(1)] equivalence_sym[OF assms(1)] assms(3) by blast
  with h show ?thesis by (simp add: has_alt)
qed

lemma has_p_add:
  assumes "equivalence P" and "hash_consistent P"
  shows "has P (p_add P m v) x \<longleftrightarrow> has P m x \<or> isEqual P v x"
proof (cases "has P m v")
  case True
  then have "p_add P m v = m" by (rule p_add_present)
  moreover have "has P m x" if "isEqual P v x"
    using has_cong[OF assms that, of m] True by simp
  ultimately show ?thesis by auto
next
  case False
  show ?thesis
  proof (cases "hashIt P x = hashIt P v")
    case True
    with False show ?thesis
      by (auto simp: p_add_cases has_alt Map_get_set split: option.splits)
  next
    case ne: False
    then have "\<not> isEqual P v x"
      using hash_consistentD[OF assms(2), of v x] by auto
    with ne False show ?thesis
      by (auto simp: p_add_cases has_alt Map_get_set split: option.splits)
  qed
qed

lemma has_add:
  assumes "equivalence P" and "hash_consistent P"
  shows "has P (add P m vals) x \<longleftrightarrow> has P m x \<or> (\<exists>v\<in>set vals. isEqual P v x)"
proof (induction vals arbitrary: m)
  case Nil
  show ?case by (simp add: add_def)
next
  case (Cons v vals)
  have "add P m (v # vals) = add P (p_add P m v) vals"
    by (simp add: add_def)
  with Cons[of "p_add P m v"] has_p_add[OF assms, of m v x] show ?case
    by auto
qed

lemma has_empty: "\<not> has P empty_set x"
  by (simp add: has_alt empty_set_def)

lemma has_clone:
  assumes "equivalence P" and "hash_consistent P" and "clone_faithful P"
  shows "has P (clone P m) x = has P m x"
proof -
  have "isEqual P (cloneDeep P y) x \<longleftrightarrow> isEqual P y x" for y
  proof
    assume "isEqual P (cloneDeep P y) x"
    with equivalence_sym[OF assms(1) clone_faithfulD[OF assms(3), of y]]
    show "isEqual P y x" by (rule equivalence_trans[OF assms(1)])
  next
    assume "isEqual P y x"
    with clone_faithfulD[OF assms(3), of y]
    show "isEqual P (cloneDeep P y) x" by (rule equivalence_trans[OF assms(1)])
  qed
  then have "list_ex (\<lambda>v. isEqual P v x) (map (cloneDeep P) vs) = list_ex (\<lambda>v. isEqual P v x) vs"
    for vs
    by (simp add: list_ex_iff)
  then show ?thesis
    by (cases "Map_get m (hashIt P x)") (simp_all add: has_alt Map_get_clone)
qed

lemma has_intersection:
  assumes "providers_ok P" and "keyed P A"
  shows "has P (intersection P A B) x \<longleftrightarrow> has P A x \<and> has P B x"
proof -
  from assms(1) have e: "equivalence P" and h: "hash_consistent P"
    by (simp_all add: providers_ok_def)
  have "has P (intersection P A B) x \<longleftrightarrow> (\<exists>v\<in>set (values_ds A). has P B v \<and> isEqual P v x)"
    by (auto simp: intersection_alt has_add[OF e h] has_empty)
  also have "\<dots> \<longleftrightarrow> (\<exists>v\<in>set (values_ds A). isEqual P v x) \<and> has P B x"
    using has_cong[OF e h, of _ x B] by blast
  finally show ?thesis
    by (simp add: has_iff_values[OF h assms(2)])
qed

lemma has_difference:
  assumes "providers_ok P" and "keyed P A"
  shows "has P (difference P A B) x \<longleftrightarrow> has P A x \<and> \<not> has P B x"
proof -
  from assms(1) have e: "equivalence P" and h: "hash_consistent P"
    by (simp_all add: providers_ok_def)
  have "has P (difference P A B) x \<longleftrightarrow> (\<exists>v\<in>set (values_ds A). \<not> has P B v \<and> isEqual P v x)"
    by (auto simp: difference_alt has_add[OF e h] has_empty)
  also have "\<dots> \<longleftrightarrow> (\<exists>v\<in>set (values_ds A). isEqual P v x) \<and> \<not> has P B x"
    using has_cong[OF e h, of _ x B] by blast
  finally show ?thesis
    by (simp add: has_iff_values[OF h assms(2)])
qed

lemma has_symmetricDifference:
  assumes "providers_ok P" and "keyed P A" and "keyed P B"
  shows "has P (symmetricDifference P A B) x \<longleftrightarrow>
           (has P A x \<and> \<not> has P B x) \<or> (has P B x \<and> \<not> has P A x)"
proof -
  from assms(1) have e: "equivalence P" and h: "hash_consistent P"
    by (simp_all add: providers_ok_def)
  have "has P (symmetricDifference P A B) x \<longleftrightarrow>
          (\<exists>v\<in>set (values_ds A). \<not> has P B v \<and> isEqual P v x) \<or>
          (\<exists>v\<in>set (values_ds B). \<not> has P A v \<and> isEqual P v x)"
    by (auto simp: symmetricDifference_alt has_add[OF e h] has_empty)
  also have "\<dots> \<longleftrightarrow> ((\<exists>v\<in>set (values_ds A). isEqual P v x) \<and> \<not> has P B x) \<or>
                      ((\<exists>v\<in>set (values_ds B). isEqual P v x) \<and> \<not> has P A x)"
    using has_cong[OF e h, of _ x B] has_cong[OF e h, of _ x A] by blast
  finally show ?thesis
    by (simp add: has_iff_values[OF h assms(2)] has_iff_values[OF h assms(3)])
qed

lemma has_union_One:
  assumes "providers_ok P" and "keyed P B"
  shows "has P (union_ds P A (One B)) x \<longleftrightarrow> has P A x \<or> has P B x"
proof -
  from assms(1) have e: "equivalence P" and h: "hash_consistent P" and c: "clone_faithful P"
    by (simp_all add: providers_ok_def)
  show ?thesis
    by (simp add: union_ds_alt has_add[OF e h] has_clone[OF e h c] has_iff_values[OF h assms(2)])
qed

lemma keyed_union:
  assumes "providers_ok P" and "keyed P A"
  shows "keyed P (union_ds P A other)"
proof -
  from assms(1) have h: "hash_consistent P" and c: "clone_faithful P"
    by (simp_all add: providers_ok_def)
  show ?thesis
    by (simp add: union_ds_alt keyed_add keyed_clone[OF h c assms(2)])
qed

text \<open>
  Claim C2. For all containers \<open>A\<close> and \<open>B\<close> (Maps with distinct keys whose values lie in
  the bucket of their hash) and every value \<open>x\<close>, \<open>A.symmetricDifference(B).has(x)\<close> and
  \<open>A.union(B).difference(A.intersection(B)).has(x)\<close> agree: the two containers have the same
  members under deep equality.
\<close>

theorem symmetricDifference_is_union_minus_intersection:
  assumes "providers_ok P" and "keyed P A" and "keyed P B"
  shows "has P (symmetricDifference P A B) x =
         has P (difference P (union_ds P A (One B)) (intersection P A B)) x"
  using has_symmetricDifference[OF assms] has_difference[OF assms(1) keyed_union[OF assms(1,2)]]
        has_union_One[OF assms(1,3)] has_intersection[OF assms(1,2)]
  by blast

theorem symmetricDifference_is_union_minus_intersection_witness:
  "providers_ok example_providers \<and>
   keyed example_providers (DeepSet example_providers [1, 2, 3]) \<and>
   keyed example_providers (DeepSet example_providers [2, 3, 4]) \<and>
   has example_providers
     (symmetricDifference example_providers (DeepSet example_providers [1, 2, 3])
        (DeepSet example_providers [2, 3, 4])) 4 \<and>
   has example_providers
     (difference example_providers
        (union_ds example_providers (DeepSet example_providers [1, 2, 3])
           (One (DeepSet example_providers [2, 3, 4])))
        (intersection example_providers (DeepSet example_providers [1, 2, 3])
           (DeepSet example_providers [2, 3, 4]))) 4"
proof -
  have a: "keyed example_providers (DeepSet example_providers [1, 2, 3])"
    by code_simp
  have b: "keyed example_providers (DeepSet example_providers [2, 3, 4])"
    by code_simp
  have s: "has example_providers
     (symmetricDifference example_providers (DeepSet example_providers [1, 2, 3])
        (DeepSet example_providers [2, 3, 4])) 4"
    by code_simp
  from symmetricDifference_is_union_minus_intersection[OF example_providers_ok a b, of 4]
       example_providers_ok a b s
  show ?thesis by simp
qed

section \<open>Counting members\<close>

lemma no_equal_pair_append:
  "no_equal_pair P (xs @ ys) \<longleftrightarrow>
     no_equal_pair P xs \<and> no_equal_pair P ys \<and>
     (\<forall>x\<in>set xs. \<forall>y\<in>set ys. \<not> isEqual P x y \<and> \<not> isEqual P y x)"
  by (induction xs) (auto simp: list_ex_iff)

lemma values_ds_Cons: "values_ds ((k, vals) # m) = vals @ values_ds m"
  by (simp add: values_ds_def Map_values_def)

lemma values_ds_hash:
  "keyed P m \<Longrightarrow> y \<in> set (values_ds m) \<Longrightarrow> hashIt P y \<in> fst ` set m"
  by (force simp: keyed_def list_all_iff values_ds_def Map_values_def)

lemma values_no_equal_pair:
  assumes "hash_consistent P"
  shows "keyed P m \<Longrightarrow> invariant P m \<Longrightarrow> no_equal_pair P (values_ds m)"
proof (induction m)
  case Nil
  show ?case by (simp add: values_ds_def Map_values_def)
next
  case (Cons e m)
  obtain k vals where e: "e = (k, vals)" by (cases e)
  from Cons.prems e have km: "keyed P m" and im: "invariant P m"
    and k: "k \<notin> fst ` set m" and hv: "\<forall>x\<in>set vals. hashIt P x = k"
    and nv: "no_equal_pair P vals"
    by (auto simp: keyed_def invariant_def list_all_iff)
  have "\<not> isEqual P x y \<and> \<not> isEqual P y x" if "x \<in> set vals" "y \<in> set (values_ds m)" for x y
  proof -
    from values_ds_hash[OF km that(2)] k hv that(1) have "hashIt P x \<noteq> hashIt P y"
      by auto
    then show ?thesis
      using hash_consistentD[OF assms, of x y] hash_consistentD[OF assms, of y x] by auto
  qed
  with Cons.IH[OF km im] nv e show ?case
    by (simp add: values_ds_Cons no_equal_pair_append)
qed

lemma eq_class_eq_iff:
  assumes "equivalence P"
  shows "eq_class P x = eq_class P y \<longleftrightarrow> isEqual P x y"
proof
  assume "eq_class P x = eq_class P y"
  moreover have "y \<in> eq_class P y"
    by (simp add: eq_class_def equivalence_refl[OF assms])
  ultimately have "y \<in> eq_class P x" by simp
  then show "isEqual P x y"
    by (simp add: eq_class_def)
next
  assume xy: "isEqual P x y"
  have "isEqual P x z \<longleftrightarrow> isEqual P y z" for z
    using equivalence_trans[OF assms] equivalence_sym[OF assms] xy by blast
  then show "eq_class P x = eq_class P y"
    by (simp add: eq_class_def)
qed

lemma length_card_classes:
  assumes "equivalence P"
  shows "no_equal_pair P xs \<Longrightarrow> length xs = card (eq_class P ` set xs)"
proof (induction xs)
  case Nil
  show ?case by simp
next
  case (Cons x xs)
  from Cons.prems have "eq_class P x \<notin> eq_class P ` set xs"
    by (auto simp: eq_class_eq_iff[OF assms] list_ex_iff)
  with Cons show ?case by simp
qed

lemma classes_values:
  assumes "equivalence P" and "hash_consistent P" and "keyed P m"
  shows "eq_class P ` set (values_ds m) = eq_class P ` {x. has P m x}"
proof (intro equalityI subsetI)
  fix c assume "c \<in> eq_class P ` set (values_ds m)"
  then obtain y where y: "y \<in> set (values_ds m)" "c = eq_class P y" by auto
  with equivalence_refl[OF assms(1), of y] have "has P m y"
    by (auto simp: has_iff_values[OF assms(2,3)])
  with y show "c \<in> eq_class P ` {x. has P m x}" by auto
next
  fix c assume "c \<in> eq_class P ` {x. has P m x}"
  then obtain x where x: "has P m x" "c = eq_class P x" by auto
  then obtain y where y: "y \<in> set (values_ds m)" "isEqual P y x"
    by (auto simp: has_iff_values[OF assms(2,3)])
  with x have "c = eq_class P y"
    by (simp add: eq_class_eq_iff[OF assms(1)] equivalence_sym[OF assms(1)])
  with y show "c \<in> eq_class P ` set (values_ds m)" by auto
qed

lemma size_card_classes:
  assumes "providers_ok P" and "wf P m"
  shows "size_ds m = card (eq_class P ` {x. has P m x})"
proof -
  from assms(1) have e: "equivalence P" and h: "hash_consistent P"
    by (simp_all add: providers_ok_def)
  from assms(2) have k: "keyed P m" and i: "invariant P m"
    by (simp_all add: wf_def)
  show ?thesis
    using length_card_classes[OF e values_no_equal_pair[OF h k i]] classes_values[OF e h k]
    by (simp add: size_ds_values)
qed

lemma finite_classes:
  assumes "providers_ok P" and "keyed P m"
  shows "finite (eq_class P ` {x. has P m x})"
proof -
  from assms(1) have e: "equivalence P" and h: "hash_consistent P"
    by (simp_all add: providers_ok_def)
  have "finite (eq_class P ` set (values_ds m))" by simp
  then show ?thesis by (simp add: classes_values[OF e h assms(2)])
qed

lemma classes_Int:
  assumes "providers_ok P"
  shows "eq_class P ` ({x. has P A x} \<inter> {x. has P B x})
           = eq_class P ` {x. has P A x} \<inter> eq_class P ` {x. has P B x}"
proof (intro equalityI subsetI)
  fix c assume "c \<in> eq_class P ` ({x. has P A x} \<inter> {x. has P B x})"
  then show "c \<in> eq_class P ` {x. has P A x} \<inter> eq_class P ` {x. has P B x}" by auto
next
  from assms have e: "equivalence P" and h: "hash_consistent P"
    by (simp_all add: providers_ok_def)
  fix c assume "c \<in> eq_class P ` {x. has P A x} \<inter> eq_class P ` {x. has P B x}"
  then obtain a b where a: "has P A a" "c = eq_class P a" and b: "has P B b" "c = eq_class P b"
    by auto
  then have "isEqual P a b" by (simp add: eq_class_eq_iff[OF e, symmetric])
  from has_cong[OF e h this, of B] b have "has P B a" by simp
  with a show "c \<in> eq_class P ` ({x. has P A x} \<inter> {x. has P B x})" by auto
qed

lemma wf_add: "equivalence P \<Longrightarrow> wf P m \<Longrightarrow> wf P (add P m vals)"
  by (simp add: wf_def keyed_add invariant_add)

lemma wf_empty: "wf P empty_set"
  by (simp add: wf_def keyed_empty invariant_empty)

lemma wf_clone: "providers_ok P \<Longrightarrow> wf P m \<Longrightarrow> wf P (clone P m)"
  by (simp add: wf_def providers_ok_def keyed_clone invariant_clone)

lemma wf_intersection: "providers_ok P \<Longrightarrow> wf P (intersection P A B)"
  by (simp add: intersection_alt wf_add wf_empty providers_ok_def)

lemma wf_union: "providers_ok P \<Longrightarrow> wf P A \<Longrightarrow> wf P (union_ds P A other)"
  by (simp add: union_ds_alt wf_add wf_clone providers_ok_def)

lemma wf_delete: "wf P m \<Longrightarrow> wf P (snd (delete P m v))"
  by (simp add: wf_def keyed_delete invariant_delete)

lemma wf_clear: "wf P (clear m)"
  by (simp add: wf_def clear_def keyed_def invariant_def)

lemma wf_DeepSet: "providers_ok P \<Longrightarrow> wf P (DeepSet P vals)"
  by (simp add: DeepSet_def wf_add wf_empty providers_ok_def)

lemma wf_difference: "providers_ok P \<Longrightarrow> wf P (difference P A B)"
  by (simp add: difference_alt wf_add wf_empty providers_ok_def)

lemma wf_symmetricDifference: "providers_ok P \<Longrightarrow> wf P (symmetricDifference P A B)"
  by (simp add: symmetricDifference_alt wf_add wf_empty providers_ok_def)

lemma reachable_wf:
  assumes "providers_ok P"
  shows "reachable P m \<Longrightarrow> wf P m"
proof (induction rule: reachable.induct)
  case (r_new vals)
  show ?case by (rule wf_DeepSet[OF assms])
next
  case (r_add m vals)
  with assms show ?case by (simp add: wf_add providers_ok_def)
next
  case (r_delete m v)
  then show ?case by (simp add: wf_delete)
next
  case (r_clear m)
  show ?case by (rule wf_clear)
next
  case (r_clone m)
  with assms show ?case by (simp add: wf_clone)
next
  case (r_intersection m other)
  show ?case by (rule wf_intersection[OF assms])
next
  case (r_union m others)
  with assms show ?case by (simp add: wf_union)
next
  case (r_difference m other)
  show ?case by (rule wf_difference[OF assms])
next
  case (r_symmetricDifference m other)
  show ?case by (rule wf_symmetricDifference[OF assms])
qed

text \<open>
  Claim C6. For all containers \<open>A\<close> and \<open>B\<close> satisfying the container invariant,
  \<open>A.union(B).size = A.size + B.size - A.intersection(B).size\<close>.
\<close>

theorem union_size:
  assumes "providers_ok P" and "wf P A" and "wf P B"
  shows "int (size_ds (union_ds P A (One B))) =
         int (size_ds A) + int (size_ds B) - int (size_ds (intersection P A B))"
proof -
  let ?M = "\<lambda>m. {x. has P m x}"
  let ?C = "\<lambda>m. eq_class P ` ?M m"
  from assms have kA: "keyed P A" and kB: "keyed P B" by (simp_all add: wf_def)
  have U: "?M (union_ds P A (One B)) = ?M A \<union> ?M B"
    using has_union_One[OF assms(1) kB] by auto
  have I: "?M (intersection P A B) = ?M A \<inter> ?M B"
    using has_intersection[OF assms(1) kA] by auto
  have "size_ds (union_ds P A (One B)) = card (?C A \<union> ?C B)"
    by (simp add: size_card_classes[OF assms(1) wf_union[OF assms(1,2)]] U image_Un)
  moreover have "size_ds (intersection P A B) = card (?C A \<inter> ?C B)"
    by (simp add: size_card_classes[OF assms(1) wf_intersection[OF assms(1)]] I
          classes_Int[OF assms(1)])
  moreover have "card (?C A) + card (?C B) = card (?C A \<union> ?C B) + card (?C A \<inter> ?C B)"
    by (rule card_Un_Int[OF finite_classes[OF assms(1) kA] finite_classes[OF assms(1) kB]])
  ultimately show ?thesis
    by (simp add: size_card_classes[OF assms(1,2)] size_card_classes[OF assms(1,3)])
qed

theorem union_size_witness:
  "providers_ok example_providers \<and>
   wf example_providers (DeepSet example_providers [1, 2, 3]) \<and>
   wf example_providers (DeepSet example_providers [2, 3, 4]) \<and>
   size_ds (DeepSet example_providers [1, 2, 3]) = 3 \<and>
   size_ds (DeepSet example_providers [2, 3, 4]) = 3 \<and>
   size_ds (intersection example_providers (DeepSet example_providers [1, 2, 3])
              (DeepSet example_providers [2, 3, 4])) = 2 \<and>
   int (size_ds (union_ds example_providers (DeepSet example_providers [1, 2, 3])
                   (One (DeepSet example_providers [2, 3, 4])))) = 4"
proof -
  have a: "wf example_providers (DeepSet example_providers [1, 2, 3])"
    by code_simp
  have b: "wf example_providers (DeepSet example_providers [2, 3, 4])"
    by code_simp
  have s: "size_ds (DeepSet example_providers [1, 2, 3]) = 3"
          "size_ds (DeepSet example_providers [2, 3, 4]) = 3"
          "size_ds (intersection example_providers (DeepSet example_providers [1, 2, 3])
              (DeepSet example_providers [2, 3, 4])) = 2"
    by code_simp+
  from union_size[OF example_providers_ok a b] example_providers_ok a b s
  show ?thesis by simp
qed

section \<open>Iteration order\<close>

lemma set_first_seen: "set (first_seen ks) = set ks"
  by (induction ks) auto

lemma distinct_first_seen: "distinct (first_seen ks)"
  by (induction ks) (auto simp: distinct_removeAll)

lemma first_seen_snoc:
  "first_seen (ks @ [k]) = (if k \<in> set ks then first_seen ks else first_seen ks @ [k])"
  by (induction ks) auto

lemma Map_get_tabulate:
  "Map_get (map (\<lambda>k. (k, f k)) ks) k = (if k \<in> set ks then Some (f k) else None)"
  by (induction ks) auto

lemma Map_set_tabulate:
  "distinct ks \<Longrightarrow> k \<in> set ks \<Longrightarrow>
   Map_set (map (\<lambda>k. (k, f k)) ks) k w = map (\<lambda>k'. (k', if k' = k then w else f k')) ks"
  by (induction ks) auto

lemma Map_get_grouped:
  "Map_get (grouped P stored) k =
     (if k \<in> hashIt P ` set stored then Some (filter (\<lambda>v. hashIt P v = k) stored) else None)"
  by (simp add: grouped_def Map_get_tabulate set_first_seen)

lemma p_add_grouped:
  "p_add P (grouped P stored) v =
     grouped P (if list_ex (\<lambda>x. hashIt P x = hashIt P v \<and> isEqual P x v) stored
                then stored else stored @ [v])"
proof (cases "hashIt P v \<in> hashIt P ` set stored")
  case False
  then have ne: "\<forall>x\<in>set stored. hashIt P x \<noteq> hashIt P v"
    by (metis imageI)
  then have nf: "filter (\<lambda>x. hashIt P x = hashIt P v) stored = []"
    by (simp add: filter_empty_conv)
  from ne have nex: "\<not> list_ex (\<lambda>x. hashIt P x = hashIt P v \<and> isEqual P x v) stored"
    by (simp add: list_ex_iff)
  have "map (\<lambda>k. (k, filter (\<lambda>x. hashIt P x = k) (stored @ [v]))) (first_seen (map (hashIt P) stored))
      = map (\<lambda>k. (k, filter (\<lambda>x. hashIt P x = k) stored)) (first_seen (map (hashIt P) stored))"
    using False by (auto simp: set_first_seen)
  with False nf nex show ?thesis
    by (simp add: p_add_cases Map_get_grouped Map_set_new)
       (simp add: grouped_def first_seen_snoc)
next
  case True
  let ?bucket = "filter (\<lambda>x. hashIt P x = hashIt P v) stored"
  have ex: "list_ex (\<lambda>x. isEqual P x v) ?bucket
            = list_ex (\<lambda>x. hashIt P x = hashIt P v \<and> isEqual P x v) stored"
    by (auto simp: list_ex_iff)
  show ?thesis
  proof (cases "list_ex (\<lambda>x. hashIt P x = hashIt P v \<and> isEqual P x v) stored")
    case found: True
    with True ex show ?thesis
      by (simp add: p_add_cases Map_get_grouped)
  next
    case notfound: False
    from True have k: "hashIt P v \<in> set (first_seen (map (hashIt P) stored))"
      by (simp add: set_first_seen)
    have "Map_set (grouped P stored) (hashIt P v) (?bucket @ [v])
          = map (\<lambda>k'. (k', if k' = hashIt P v then ?bucket @ [v]
                            else filter (\<lambda>x. hashIt P x = k') stored))
                (first_seen (map (hashIt P) stored))"
      unfolding grouped_def by (rule Map_set_tabulate[OF distinct_first_seen k])
    also have "\<dots> = grouped P (stored @ [v])"
      using True by (auto simp: grouped_def first_seen_snoc)
    finally show ?thesis
      using True ex notfound by (simp add: p_add_cases Map_get_grouped)
  qed
qed

lemma add_grouped: "add P (grouped P acc) vs = grouped P (inserted P acc vs)"
proof (induction vs arbitrary: acc)
  case Nil
  show ?case by (simp add: add_def)
next
  case (Cons v vs)
  have "add P (grouped P acc) (v # vs) = add P (p_add P (grouped P acc) v) vs"
    by (simp add: add_def)
  then show ?case
    by (simp only: p_add_grouped Cons.IH inserted.simps)
qed

lemma DeepSet_grouped: "DeepSet P vs = grouped P (inserted P [] vs)"
  using add_grouped[of P "[]" vs] by (simp add: DeepSet_def grouped_def empty_set_def)

lemma add_DeepSet: "add P (DeepSet P vs) ws = DeepSet P (vs @ ws)"
  by (simp add: DeepSet_def add_append)

text \<open>
  Claim C3. For every insertion sequence \<open>vs\<close> into a new container, \<open>values()\<close>,
  \<open>keys()\<close> and the default iterator yield the stored values ordered first by the order in
  which their hash keys were first introduced and, within one hash key, by insertion
  order; \<open>entries()\<close> yields the pairs \<open>(v, v)\<close> in the same order. In particular, inserting
  \<open>a\<close>, then \<open>b\<close> with a different hash, then \<open>c\<close> whose hash collides with that of \<open>a\<close> and
  which is not deep-equal to \<open>a\<close>, iterates as \<open>[a, c, b]\<close>. Further \<open>add\<close> calls continue
  the insertion sequence.
\<close>

theorem iteration_order:
  "values_ds (DeepSet P vs) = spec_order P vs \<and>
   values_ds (add P (DeepSet P vs) ws) = spec_order P (vs @ ws) \<and>
   keys (DeepSet P vs) = spec_order P vs \<and>
   iterator (DeepSet P vs) = spec_order P vs \<and>
   entries (DeepSet P vs) = map (\<lambda>v. (v, v)) (spec_order P vs) \<and>
   (hashIt P a \<noteq> hashIt P b \<and> hashIt P c = hashIt P a \<and> \<not> isEqual P a c
      \<longrightarrow> values_ds (DeepSet P [a, b, c]) = [a, c, b])"
proof -
  have v: "values_ds (DeepSet P xs) = spec_order P xs" for xs
    by (simp add: DeepSet_grouped grouped_def values_ds_def Map_values_def spec_order_def
          comp_def Let_def)
  have "values_ds (DeepSet P vs) = spec_order P vs"
    by (rule v)
  moreover have "values_ds (add P (DeepSet P vs) ws) = spec_order P (vs @ ws)"
    by (simp add: add_DeepSet v)
  moreover have "values_ds (DeepSet P [a, b, c]) = [a, c, b]"
    if "hashIt P a \<noteq> hashIt P b" "hashIt P c = hashIt P a" "\<not> isEqual P a c"
    using that
    by (simp add: DeepSet_def add_def p_add_cases empty_set_def Map_get_set values_ds_def
          Map_values_def)
  ultimately show ?thesis
    by (simp add: keys_def iterator_def entries_def)
qed

theorem iteration_order_witness:
  "hashIt example_providers 1 \<noteq> hashIt example_providers 2 \<and>
   hashIt example_providers 4 = hashIt example_providers 1 \<and>
   \<not> isEqual example_providers 1 4 \<and>
   values_ds (DeepSet example_providers [1, 2, 4]) = [1, 4, 2] \<and>
   spec_order example_providers [1, 2, 4] = [1, 4, 2]"
proof -
  have h: "hashIt example_providers 1 \<noteq> hashIt example_providers 2 \<and>
           hashIt example_providers 4 = hashIt example_providers 1 \<and>
           \<not> isEqual example_providers 1 4"
    by (simp add: example_providers_def)
  have s: "spec_order example_providers [1, 2, 4] = [1, 4, 2]"
    by code_simp
  from iteration_order[where P = example_providers and vs = "[1, 2, 4]" and ws = "[]"
         and a = 1 and b = 2 and c = 4] h s
  show ?thesis
    by simp
qed

section \<open>The disjointness test\<close>

lemma Map_set_mem: "(k, v) \<in> set (Map_set m k v)"
  by (induction m) auto

lemma values_ds_Map_set_nonempty: "vals \<noteq> [] \<Longrightarrow> values_ds (Map_set m k vals) \<noteq> []"
  using Map_set_mem[of k vals m] by (force simp: values_ds_def Map_values_def)

lemma Map_get_values_nonempty: "Map_get m k = Some vals \<Longrightarrow> vals \<noteq> [] \<Longrightarrow> values_ds m \<noteq> []"
  by (drule Map_get_Some_mem) (force simp: values_ds_def Map_values_def)

lemma values_p_add_nonempty: "values_ds (p_add P m v) \<noteq> []"
proof (cases "Map_get m (hashIt P v)")
  case None
  then show ?thesis by (simp add: p_add_cases values_ds_Map_set_nonempty)
next
  case (Some vals)
  show ?thesis
  proof (cases "list_ex (\<lambda>x. isEqual P x v) vals")
    case True
    then have "vals \<noteq> []" by auto
    with Some True show ?thesis
      by (simp add: p_add_cases Map_get_values_nonempty)
  next
    case False
    with Some show ?thesis
      by (simp add: p_add_cases values_ds_Map_set_nonempty)
  qed
qed

lemma values_add_nonempty: "vals \<noteq> [] \<Longrightarrow> values_ds (add P m vals) \<noteq> []"
proof (induction vals arbitrary: m rule: rev_induct)
  case Nil
  then show ?case by simp
next
  case (snoc v vals)
  have "add P m (vals @ [v]) = p_add P (add P m vals) v"
    by (simp add: add_def)
  then show ?case by (simp add: values_p_add_nonempty)
qed

text \<open>
  What the method computes: it returns true exactly when both containers are empty.
\<close>

lemma isDisjointFrom_iff_both_empty:
  "isDisjointFrom P A B \<longleftrightarrow> values_ds A = [] \<and> values_ds B = []"
proof (cases "values_ds B = []")
  case True
  then have "isDisjointFrom P A B \<longleftrightarrow> size_ds A = 0"
    by (simp add: isDisjointFrom_def union_ds_alt add_def size_clone)
  with True show ?thesis
    by (simp add: size_ds_values)
next
  case False
  then have "values_ds (union_ds P A (One B)) \<noteq> []"
    by (simp add: union_ds_alt values_add_nonempty)
  with False show ?thesis
    by (simp add: isDisjointFrom_def size_ds_values)
qed

text \<open>
  Claim C1 says that \<open>isDisjointFrom\<close> returns true exactly when the two containers share
  no value. The method compares the size of the union with zero instead. On the
  containers \<open>{1}\<close> and \<open>{2}\<close>, which share no value, it returns false.
\<close>

theorem isDisjointFrom_disjoint_nonempty:
  "values_ds (DeepSet example_providers [1]) = [1] \<and>
   values_ds (DeepSet example_providers [2]) = [2] \<and>
   \<not> has example_providers (DeepSet example_providers [2]) 1 \<and>
   \<not> has example_providers (DeepSet example_providers [1]) 2 \<and>
   isDisjointFrom example_providers (DeepSet example_providers [1])
     (DeepSet example_providers [2]) = False"
  by code_simp

section \<open>The object store: views and frames\<close>

lemma deref_alt: "deref st es = map (\<lambda>e. (fst e, Array_get st (snd e))) es"
  by (simp add: deref_def case_prod_unfold)

lemma live_alt:
  "live st this \<longleftrightarrow>
     (\<exists>mp es. this_map st this = Some (mp, es) \<and> this < next_ref st \<and> mp < next_ref st \<and>
        distinct (map snd es) \<and> (\<forall>a\<in>refs_of es. a < next_ref st))"
  by (auto simp: live_def refs_of_def list_all_iff case_prod_unfold split: option.splits)

lemma Map_get_deref: "Map_get (deref st es) k = map_option (Array_get st) (Map_get es k)"
  by (induction es) (auto simp: deref_def)

lemma deref_cong:
  "(\<And>a. a \<in> refs_of es \<Longrightarrow> Array_get st' a = Array_get st a) \<Longrightarrow> deref st' es = deref st es"
  by (simp add: deref_alt refs_of_def)

lemma deref_append: "deref st (es @ es') = deref st es @ deref st es'"
  by (simp add: deref_def)

lemma deref_Map_delete: "deref st (Map_delete es k) = Map_delete (deref st es) k"
  by (induction es) (auto simp: deref_def)

lemma Array_get_upd:
  "arrays st' = (arrays st)(a \<mapsto> xs) \<Longrightarrow> Array_get st' b = (if b = a then xs else Array_get st b)"
  by (simp add: Array_get_def)

lemma Map_get_refs: "Map_get es k = Some a \<Longrightarrow> a \<in> refs_of es"
  by (drule Map_get_Some_mem) (force simp: refs_of_def)

lemma deref_Cons: "deref s ((k, a) # es) = (k, Array_get s a) # deref s es"
  by (simp add: deref_def)

lemma deref_update:
  assumes "arrays st' = (arrays st)(a \<mapsto> xs)"
  shows "distinct (map snd es) \<Longrightarrow> Map_get es k = Some a \<Longrightarrow>
         deref st' es = Map_set (deref st es) k xs"
proof (induction es)
  case Nil
  then show ?case by simp
next
  case (Cons e es)
  obtain k' a' where e: "e = (k', a')" by (cases e)
  note upd = Array_get_upd[OF assms]
  show ?case
  proof (cases "k' = k")
    case True
    with Cons.prems e have a: "a' = a" and "a \<notin> refs_of es"
      by (auto simp: refs_of_def)
    then have "deref st' es = deref st es"
      by (intro deref_cong) (auto simp: upd)
    with True a show ?thesis
      by (simp add: e deref_Cons upd)
  next
    case False
    with Cons.prems e have g: "Map_get es k = Some a" and d: "distinct (map snd es)"
      by simp_all
    from Map_get_refs[OF g] Cons.prems(1) e have "a' \<noteq> a"
      by (auto simp: refs_of_def)
    with False Cons.IH[OF d g] show ?thesis
      by (simp add: e deref_Cons upd)
  qed
qed

lemma this_map_Some:
  "this_map st this = Some (mp, es) \<longleftrightarrow> deepsets st this = Some mp \<and> maps st mp = Some es"
  by (auto simp: this_map_def split: option.splits)

lemma liveD:
  assumes "live st this"
  obtains mp es where "this_map st this = Some (mp, es)" "this < next_ref st" "mp < next_ref st"
    "distinct (map snd es)" "\<forall>a\<in>refs_of es. a < next_ref st"
  using assms unfolding live_alt by blast

lemma liveI:
  "this_map st this = Some (mp, es) \<Longrightarrow> this < next_ref st \<Longrightarrow> mp < next_ref st \<Longrightarrow>
   distinct (map snd es) \<Longrightarrow> \<forall>a\<in>refs_of es. a < next_ref st \<Longrightarrow> live st this"
  unfolding live_alt by blast

lemma separate_iff:
  "this_map st r1 = Some (m1, es1) \<Longrightarrow> this_map st r2 = Some (m2, es2) \<Longrightarrow>
   separate st r1 r2 \<longleftrightarrow> r1 \<noteq> r2 \<and> m1 \<noteq> m2 \<and> refs_of es1 \<inter> refs_of es2 = {}"
  by (auto simp: separate_def refs_of_def list_all_iff case_prod_unfold)

lemma separate_sym: "separate st r1 r2 \<Longrightarrow> separate st r2 r1"
proof -
  assume s: "separate st r1 r2"
  then obtain m1 es1 m2 es2 where m: "this_map st r1 = Some (m1, es1)" "this_map st r2 = Some (m2, es2)"
    by (auto simp: separate_def split: option.splits)
  from s show ?thesis
    unfolding separate_iff[OF m] separate_iff[OF m(2,1)] by auto
qed

lemma frame_live:
  assumes "live st this" and "frame st st' this"
  shows "live st' this"
proof -
  from assms(1) obtain mp es where m: "this_map st this = Some (mp, es)"
    and b: "this < next_ref st" "mp < next_ref st" "\<forall>a\<in>refs_of es. a < next_ref st"
    by (rule liveD)
  from assms(2) m obtain es' where m': "this_map st' this = Some (mp, es')"
    and n: "next_ref st \<le> next_ref st'" and d: "distinct (map snd es')"
    and f: "\<forall>a\<in>refs_of es'. a \<in> refs_of es \<or> (next_ref st \<le> a \<and> a < next_ref st')"
    by (auto simp: frame_def)
  from f b(3) n have "\<forall>a\<in>refs_of es'. a < next_ref st'"
    by fastforce
  with m' b n d show ?thesis
    by (intro liveI[of st' this mp es']) auto
qed

lemma frame_preserves_others:
  assumes "live st this" and "frame st st' this"
  shows "preserves_others st st' this"
  unfolding preserves_others_def
proof (intro allI impI, elim conjE)
  fix other
  assume lo: "live st other" and sep: "separate st this other"
  from assms(1) obtain mp es where m: "this_map st this = Some (mp, es)"
    and b: "this < next_ref st" "mp < next_ref st" "\<forall>a\<in>refs_of es. a < next_ref st"
    by (rule liveD)
  from lo obtain mo eo where o: "this_map st other = Some (mo, eo)"
    and bo: "other < next_ref st" "mo < next_ref st" "\<forall>a\<in>refs_of eo. a < next_ref st"
    and do: "distinct (map snd eo)"
    by (rule liveD)
  from assms(2) m obtain es' where m': "this_map st' this = Some (mp, es')"
    and s: "deepsets st' = deepsets st"
    and n: "next_ref st \<le> next_ref st'"
    and fm: "\<forall>r. r \<noteq> mp \<longrightarrow> maps st' r = maps st r"
    and fa: "\<forall>a. a < next_ref st \<longrightarrow> a \<notin> refs_of es \<longrightarrow> arrays st' a = arrays st a"
    and f: "\<forall>a\<in>refs_of es'. a \<in> refs_of es \<or> (next_ref st \<le> a \<and> a < next_ref st')"
    by (auto simp: frame_def)
  from sep m o have ne: "this \<noteq> other" "mp \<noteq> mo" and dj: "refs_of es \<inter> refs_of eo = {}"
    by (simp_all add: separate_iff)
  from o s fm ne have o': "this_map st' other = Some (mo, eo)"
    by (simp add: this_map_Some)
  have same: "Array_get st' a = Array_get st a" if "a \<in> refs_of eo" for a
    using that bo(3) dj fa by (auto simp: Array_get_def)
  have "live st' other"
    using o' bo n do by (intro liveI[of st' other mo eo]) auto
  moreover have "refs_of es' \<inter> refs_of eo = {}"
    using f dj bo(3) by fastforce
  with m' o' ne have "separate st' this other"
    by (simp add: separate_iff)
  moreover have "view st' other = view st other"
    using o o' deref_cong[of eo st' st, OF same] by (simp add: view_def)
  ultimately show "live st' other \<and> separate st' this other \<and> view st' other = view st other"
    by simp
qed

section \<open>The object store: \<open>_add\<close> and \<open>add\<close>\<close>

lemma frame_refl: "live st this \<Longrightarrow> frame st st this"
  unfolding live_alt frame_def by auto

lemma preserves_others_refl: "preserves_others st st this"
  by (simp add: preserves_others_def)

lemma preserves_others_trans:
  "preserves_others st st1 this \<Longrightarrow> preserves_others st1 st2 this \<Longrightarrow> preserves_others st st2 this"
  unfolding preserves_others_def by metis

lemma view_this_map: "this_map st this = Some (mp, es) \<Longrightarrow> view st this = deref st es"
  by (simp add: view_def)

lemma refs_of_Map_set_new:
  "Map_get es k = None \<Longrightarrow> refs_of (Map_set es k a) = insert a (refs_of es)"
  by (simp add: Map_set_new refs_of_def)

lemma h_p_add_fields_new:
  assumes "this_map st this = Some (mp, es)" and "Map_get es (hashIt P v) = None"
  shows "deepsets (h_p_add P st this v) = deepsets st"
    and "next_ref (h_p_add P st this v) = Suc (next_ref st)"
    and "maps (h_p_add P st this v) = (maps st)(mp \<mapsto> Map_set es (hashIt P v) (next_ref st))"
    and "arrays (h_p_add P st this v) = (arrays st)(next_ref st \<mapsto> [v])"
  using assms
  by (simp_all add: h_p_add_def Map_has_def new_Array_def Map_get_set Array_get_def)

lemma h_p_add_found:
  assumes "this_map st this = Some (mp, es)" and "Map_get es (hashIt P v) = Some a"
    and "list_ex (\<lambda>x. isEqual P x v) (Array_get st a)"
  shows "h_p_add P st this v = st"
  using assms by (simp add: h_p_add_def Map_has_def)

lemma h_p_add_fields_push:
  assumes "this_map st this = Some (mp, es)" and "Map_get es (hashIt P v) = Some a"
    and "\<not> list_ex (\<lambda>x. isEqual P x v) (Array_get st a)"
  shows "deepsets (h_p_add P st this v) = deepsets st"
    and "next_ref (h_p_add P st this v) = next_ref st"
    and "maps (h_p_add P st this v) = maps st"
    and "arrays (h_p_add P st this v) = (arrays st)(a \<mapsto> Array_get st a @ [v])"
  using assms by (simp_all add: h_p_add_def Map_has_def)

lemma h_p_add_step:
  assumes "live st this"
  shows "frame st (h_p_add P st this v) this \<and>
         view (h_p_add P st this v) this = p_add P (view st this) v"
proof -
  let ?st' = "h_p_add P st this v" and ?h = "hashIt P v" and ?n = "next_ref st"
  from assms obtain mp es where m: "this_map st this = Some (mp, es)"
    and b: "this < next_ref st" "mp < next_ref st" "\<forall>a\<in>refs_of es. a < next_ref st"
    and d: "distinct (map snd es)"
    by (rule liveD)
  from m have sm: "deepsets st this = Some mp" "maps st mp = Some es"
    by (simp_all add: this_map_Some)
  show ?thesis
  proof (cases "Map_get es ?h")
    case None
    note f = h_p_add_fields_new[OF m None]
    let ?es' = "Map_set es ?h ?n"
    have es': "?es' = es @ [(?h, ?n)]" by (simp add: Map_set_new None)
    have m': "this_map ?st' this = Some (mp, ?es')"
      by (simp add: this_map_Some f sm)
    have fresh: "?n \<notin> refs_of es" using b(3) by auto
    have "frame st ?st' this"
      unfolding frame_def
      using m m' fresh d b(3) by (auto simp: f es' refs_of_def)
    moreover have "deref ?st' es = deref st es"
      using fresh by (intro deref_cong) (auto simp: Array_get_upd[OF f(4)])
    then have "view ?st' this = deref st es @ [(?h, [v])]"
      by (simp add: view_this_map[OF m'] es' deref_append deref_Cons deref_def
            Array_get_upd[OF f(4)])
    moreover have "p_add P (view st this) v = deref st es @ [(?h, [v])]"
      by (simp add: view_this_map[OF m] p_add_cases Map_get_deref None Map_set_new)
    ultimately show ?thesis by simp
  next
    case (Some a)
    show ?thesis
    proof (cases "list_ex (\<lambda>x. isEqual P x v) (Array_get st a)")
      case True
      with Some m frame_refl[OF assms] show ?thesis
        by (simp add: h_p_add_found[OF m Some True] view_this_map[OF m] p_add_cases Map_get_deref)
    next
      case False
      note f = h_p_add_fields_push[OF m Some False]
      have m': "this_map ?st' this = Some (mp, es)"
        by (simp add: this_map_Some f sm)
      have a: "a \<in> refs_of es" by (rule Map_get_refs[OF Some])
      have "frame st ?st' this"
        unfolding frame_def
        using m m' a d by (auto simp: f)
      moreover have "view ?st' this = Map_set (deref st es) ?h (Array_get st a @ [v])"
        by (simp add: view_this_map[OF m'] deref_update[OF f(4) d Some])
      moreover have "p_add P (view st this) v = Map_set (deref st es) ?h (Array_get st a @ [v])"
        using False by (simp add: view_this_map[OF m] p_add_cases Map_get_deref Some)
      ultimately show ?thesis by simp
    qed
  qed
qed

lemma h_p_add_ok:
  assumes "live st this"
  shows "live (h_p_add P st this v) this"
    and "preserves_others st (h_p_add P st this v) this"
    and "view (h_p_add P st this v) this = p_add P (view st this) v"
  using h_p_add_step[OF assms, of P v] frame_live[OF assms] frame_preserves_others[OF assms]
  by auto

lemma h_add_ok:
  "live st this \<Longrightarrow>
   live (snd (h_add P st this vals)) this \<and>
   preserves_others st (snd (h_add P st this vals)) this \<and>
   view (snd (h_add P st this vals)) this = add P (view st this) vals"
proof (induction vals arbitrary: st)
  case Nil
  then show ?case by (simp add: h_add_def add_def preserves_others_refl)
next
  case (Cons v vals)
  note s = h_p_add_ok[OF Cons.prems, of P v]
  have "snd (h_add P st this (v # vals)) = snd (h_add P (h_p_add P st this v) this vals)"
    by (simp add: h_add_def)
  moreover have "add P (view st this) (v # vals) = add P (p_add P (view st this) v) vals"
    by (simp add: add_def)
  ultimately show ?case
    using Cons.IH[OF s(1)] s(2,3) preserves_others_trans by fastforce
qed

section \<open>The object store: \<open>delete\<close>, \<open>clear\<close> and call sequences\<close>

lemma distinct_snd_Map_delete: "distinct (map snd es) \<Longrightarrow> distinct (map snd (Map_delete es k))"
  by (simp add: Map_delete_filter distinct_map_filter)

lemma refs_of_Map_delete: "refs_of (Map_delete es k) \<subseteq> refs_of es"
  by (auto simp: Map_delete_filter refs_of_def)

lemma h_delete_absent_key:
  assumes "this_map st this = Some (mp, es)" and "Map_get es (hashIt P v) = None"
  shows "h_delete P st this v = (False, st)"
  using assms by (simp add: h_delete_def)

lemma h_delete_not_found:
  assumes "this_map st this = Some (mp, es)" and "Map_get es (hashIt P v) = Some a"
    and "findIndex (\<lambda>x. isEqual P x v) (Array_get st a) = None"
  shows "h_delete P st this v = (False, st)"
  using assms by (simp add: h_delete_def)

lemma h_delete_fields:
  assumes "this_map st this = Some (mp, es)" and "Map_get es (hashIt P v) = Some a"
    and "findIndex (\<lambda>x. isEqual P x v) (Array_get st a) = Some i"
  shows "fst (h_delete P st this v) = True"
    and "deepsets (snd (h_delete P st this v)) = deepsets st"
    and "next_ref (snd (h_delete P st this v)) = next_ref st"
    and "arrays (snd (h_delete P st this v)) = (arrays st)(a \<mapsto> splice1 (Array_get st a) i)"
    and "maps (snd (h_delete P st this v)) =
           (maps st)(mp \<mapsto> (if splice1 (Array_get st a) i = [] then Map_delete es (hashIt P v)
                                else es))"
  using assms by (simp_all add: h_delete_def Let_def Map_set_same)

lemma h_delete_step:
  assumes "live st this"
  shows "frame st (snd (h_delete P st this v)) this \<and>
         view (snd (h_delete P st this v)) this = snd (delete P (view st this) v) \<and>
         fst (h_delete P st this v) = fst (delete P (view st this) v)"
proof -
  let ?st' = "snd (h_delete P st this v)" and ?h = "hashIt P v"
  from assms obtain mp es where m: "this_map st this = Some (mp, es)"
    and b: "this < next_ref st" "mp < next_ref st" "\<forall>a\<in>refs_of es. a < next_ref st"
    and d: "distinct (map snd es)"
    by (rule liveD)
  from m have sm: "deepsets st this = Some mp" "maps st mp = Some es"
    by (simp_all add: this_map_Some)
  note vw = view_this_map[OF m]
  show ?thesis
  proof (cases "Map_get es ?h")
    case None
    with frame_refl[OF assms] show ?thesis
      by (simp add: h_delete_absent_key[OF m None] vw delete_def Map_get_deref)
  next
    case (Some a)
    note get = Some
    have a: "a \<in> refs_of es" by (rule Map_get_refs[OF get])
    show ?thesis
    proof (cases "findIndex (\<lambda>x. isEqual P x v) (Array_get st a)")
      case None
      with frame_refl[OF assms] show ?thesis
        by (simp add: h_delete_not_found[OF m get None] vw delete_def Map_get_deref get)
    next
      case (Some i)
      note f = h_delete_fields[OF m get Some]
      let ?vals' = "splice1 (Array_get st a) i"
      let ?es' = "if ?vals' = [] then Map_delete es ?h else es"
      have m': "this_map ?st' this = Some (mp, ?es')"
        by (simp add: this_map_Some f sm)
      have d': "distinct (map snd ?es')"
        using d by (simp add: distinct_snd_Map_delete)
      have r': "refs_of ?es' \<subseteq> refs_of es"
        using refs_of_Map_delete[of es ?h] by simp
      have "frame st ?st' this"
        unfolding frame_def
        using m m' a d' r' by (auto simp: f)
      moreover have up: "deref ?st' es = Map_set (deref st es) ?h ?vals'"
        by (rule deref_update[OF f(4) d get])
      have "view ?st' this = snd (delete P (view st this) v)"
      proof (cases "?vals' = []")
        case True
        then have "view ?st' this = Map_delete (deref ?st' es) ?h"
          using m' by (simp add: view_def deref_Map_delete)
        with True up Some get show ?thesis
          by (simp add: vw delete_def Map_get_deref Map_delete_set)
      next
        case False
        then have "view ?st' this = deref ?st' es"
          using m' by (simp add: view_def)
        with False up Some get show ?thesis
          by (simp add: vw delete_def Map_get_deref)
      qed
      moreover have "fst (delete P (view st this) v) = True"
        using Some get by (simp add: vw delete_def Map_get_deref Let_def)
      ultimately show ?thesis by (simp add: f(1))
    qed
  qed
qed

lemma h_clear_step:
  assumes "live st this"
  shows "frame st (h_clear st this) this \<and> view (h_clear st this) this = clear (view st this)"
proof -
  from assms obtain mp es where m: "this_map st this = Some (mp, es)"
    by (rule liveD)
  from m have sm: "deepsets st this = Some mp" "maps st mp = Some es"
    by (simp_all add: this_map_Some)
  have m': "this_map (h_clear st this) this = Some (mp, [])"
    by (simp add: h_clear_def m this_map_Some sm)
  have "frame st (h_clear st this) this"
    unfolding frame_def using m m' by (auto simp: h_clear_def refs_of_def)
  with m' show ?thesis
    by (simp add: view_def clear_def deref_def)
qed

lemma h_mutate_ok:
  assumes "live st this"
  shows "live (h_mutate P st this mu) this \<and>
         preserves_others st (h_mutate P st this mu) this \<and>
         view (h_mutate P st this mu) this = mutate P (view st this) mu"
proof (cases mu)
  case (Add vals)
  with h_add_ok[OF assms, of P vals] show ?thesis by simp
next
  case (Delete v)
  with h_delete_step[OF assms, of P v] frame_live[OF assms] frame_preserves_others[OF assms]
  show ?thesis by simp
next
  case Clear
  with h_clear_step[OF assms] frame_live[OF assms] frame_preserves_others[OF assms]
  show ?thesis by simp
qed

lemma h_run_Cons: "h_run P st ((r, mu) # script) = h_run P (h_mutate P st r mu) script"
  by (simp add: h_run_def)

lemma run_on_Cons:
  "run_on P this ((r, mu) # script) m = run_on P this script (if r = this then mutate P m mu else m)"
  by (simp add: run_on_def)

lemma h_run_isolated:
  "live st r1 \<Longrightarrow> live st r2 \<Longrightarrow> separate st r1 r2 \<Longrightarrow>
   list_all (\<lambda>(r, mu). r = r1 \<or> r = r2) script \<Longrightarrow>
   live (h_run P st script) r1 \<and> live (h_run P st script) r2 \<and>
   separate (h_run P st script) r1 r2 \<and>
   view (h_run P st script) r1 = run_on P r1 script (view st r1) \<and>
   view (h_run P st script) r2 = run_on P r2 script (view st r2)"
proof (induction script arbitrary: st)
  case Nil
  then show ?case by (simp add: h_run_def run_on_def)
next
  case (Cons step script)
  obtain r mu where step: "step = (r, mu)" by (cases step)
  let ?st1 = "h_mutate P st r mu"
  from Cons.prems(4) step have r: "r = r1 \<or> r = r2" and rest: "list_all (\<lambda>(r, mu). r = r1 \<or> r = r2) script"
    by simp_all
  from Cons.prems(3) have ne: "r1 \<noteq> r2" by (simp add: separate_def)
  from r show ?case
  proof
    assume r1: "r = r1"
    from h_mutate_ok[OF Cons.prems(1), of P mu] r1
    have l1: "live ?st1 r1" and po: "preserves_others st ?st1 r1"
      and v1: "view ?st1 r1 = mutate P (view st r1) mu"
      by simp_all
    from po Cons.prems(2,3) have l2: "live ?st1 r2" and sep: "separate ?st1 r1 r2"
      and v2: "view ?st1 r2 = view st r2"
      by (simp_all add: preserves_others_def)
    from Cons.IH[OF l1 l2 sep rest] v1 v2 r1 ne show ?thesis
      by (simp add: step h_run_Cons run_on_Cons)
  next
    assume r2: "r = r2"
    from h_mutate_ok[OF Cons.prems(2), of P mu] r2
    have l2: "live ?st1 r2" and po: "preserves_others st ?st1 r2"
      and v2: "view ?st1 r2 = mutate P (view st r2) mu"
      by simp_all
    from po Cons.prems(1) separate_sym[OF Cons.prems(3)]
    have l1: "live ?st1 r1" and sep: "separate ?st1 r2 r1"
      and v1: "view ?st1 r1 = view st r1"
      by (simp_all add: preserves_others_def)
    from Cons.IH[OF l1 l2 separate_sym[OF sep] rest] v1 v2 r2 ne show ?thesis
      by (simp add: step h_run_Cons run_on_Cons)
  qed
qed

lemma h_has_view: "h_has P st this x = has P (view st this) x"
  by (cases "this_map st this")
     (auto simp: h_has_def view_def has_def Map_get_deref split: option.splits)

lemma h_size_view: "h_size st this = size_ds (view st this)"
  by (cases "this_map st this")
     (auto simp: h_size_def view_def size_ds_def Map_values_def deref_alt fold_map comp_def)

section \<open>The object store: \<open>clone\<close>\<close>

lemma h_DeepSet_Nil_fields:
  "fst (h_DeepSet P st []) = next_ref st"
  "deepsets (snd (h_DeepSet P st [])) = (deepsets st)(next_ref st \<mapsto> Suc (next_ref st))"
  "maps (snd (h_DeepSet P st [])) = (maps st)(Suc (next_ref st) \<mapsto> [])"
  "arrays (snd (h_DeepSet P st [])) = arrays st"
  "next_ref (snd (h_DeepSet P st [])) = Suc (Suc (next_ref st))"
  by (simp_all add: h_DeepSet_def new_Map_def h_add_def Let_def)

lemma upt_Cons_shift: "n # [Suc n ..< Suc n + l] = [n ..< n + Suc l]"
  by (simp add: upt_conv_Cons del: upt_Suc)

lemma cloneDeep_entries_ok:
  "cloneDeep_entries P st es = (es', st') \<Longrightarrow> \<forall>a\<in>refs_of es. a < next_ref st \<Longrightarrow>
   deepsets st' = deepsets st \<and> maps st' = maps st \<and> next_ref st' = next_ref st + length es \<and>
   (\<forall>b. b < next_ref st \<longrightarrow> arrays st' b = arrays st b) \<and>
   map snd es' = [next_ref st ..< next_ref st + length es] \<and>
   deref st' es' = clone P (deref st es)"
proof (induction es arbitrary: st es' st')
  case Nil
  then show ?case by (simp add: deref_def clone_def)
next
  case (Cons e es)
  obtain k a where e: "e = (k, a)" by (cases e)
  let ?n = "next_ref st"
  let ?st1 = "st\<lparr>arrays := (arrays st)(?n \<mapsto> map (cloneDeep P) (Array_get st a)),
                 next_ref := Suc ?n\<rparr>"
  obtain es2 st2 where rec: "cloneDeep_entries P ?st1 es = (es2, st2)"
    by (cases "cloneDeep_entries P ?st1 es")
  from Cons.prems(1) e rec have res: "es' = (k, ?n) # es2" "st' = st2"
    by (simp_all add: new_Array_def)
  from Cons.prems(2) e have bound: "\<forall>a\<in>refs_of es. a < next_ref ?st1" and a: "a < ?n"
    by (auto simp: refs_of_def)
  note IH = Cons.IH[OF rec bound]
  from IH have f: "deepsets st2 = deepsets st" "maps st2 = maps st"
    "next_ref st2 = Suc ?n + length es"
    and ar: "\<forall>b. b < Suc ?n \<longrightarrow> arrays st2 b = arrays ?st1 b"
    and sn: "map snd es2 = [Suc ?n ..< Suc ?n + length es]"
    and dr: "deref st2 es2 = clone P (deref ?st1 es)"
    by simp_all
  from ar have old: "\<forall>b. b < ?n \<longrightarrow> arrays st2 b = arrays st b"
    and new: "Array_get st2 ?n = map (cloneDeep P) (Array_get st a)"
    by (simp_all add: Array_get_def)
  have "deref ?st1 es = deref st es"
    using Cons.prems(2) e by (intro deref_cong) (auto simp: Array_get_def refs_of_def)
  with dr new have "deref st2 ((k, ?n) # es2) = clone P (deref st ((k, a) # es))"
    by (simp add: deref_Cons clone_def)
  moreover have "map snd ((k, ?n) # es2) = [?n ..< ?n + length (e # es)]"
    using sn upt_Cons_shift[of ?n "length es"] by (simp del: upt_Suc)
  ultimately show ?case
    using f old res e by simp
qed

lemma h_clone_ok:
  assumes "live st this" and "h_clone P st this = (c, st')"
  shows "live st' c \<and> view st' c = clone P (view st this) \<and>
         (\<forall>other. live st other \<longrightarrow>
            live st' other \<and> view st' other = view st other \<and> separate st' other c)"
proof -
  let ?n = "next_ref st"
  obtain st1 where split: "h_DeepSet P st [] = (?n, st1)"
    using h_DeepSet_Nil_fields(1)[of P st] by (cases "h_DeepSet P st []") simp
  have f1: "deepsets st1 = (deepsets st)(?n \<mapsto> Suc ?n)" "maps st1 = (maps st)(Suc ?n \<mapsto> [])"
    "arrays st1 = arrays st" "next_ref st1 = Suc (Suc ?n)"
    using h_DeepSet_Nil_fields(2-5)[of P st] by (simp_all add: split)
  from assms(1) obtain mp es where m: "this_map st this = Some (mp, es)"
    and b: "this < ?n" "mp < ?n" "\<forall>a\<in>refs_of es. a < ?n"
    by (rule liveD)
  from m have sm: "deepsets st this = Some mp" "maps st mp = Some es"
    by (simp_all add: this_map_Some)
  from b sm have sm1: "deepsets st1 this = Some mp" "maps st1 mp = Some es"
    by (simp_all add: f1)
  obtain es' st2 where ce: "cloneDeep_entries P st1 es = (es', st2)"
    by (cases "cloneDeep_entries P st1 es")
  from b(3) have "\<forall>a\<in>refs_of es. a < next_ref st1"
    by (auto simp: f1)
  note c2 = cloneDeep_entries_ok[OF ce this]
  let ?mc = "next_ref st2"
  from c2 have f2: "deepsets st2 = deepsets st1" "maps st2 = maps st1"
    "?mc = Suc (Suc ?n) + length es"
    and ar: "\<forall>b. b < Suc (Suc ?n) \<longrightarrow> arrays st2 b = arrays st b"
    and sn: "map snd es' = [Suc (Suc ?n) ..< Suc (Suc ?n) + length es]"
    and dr: "deref st2 es' = clone P (deref st1 es)"
    by (simp_all add: f1)
  from assms(2) have res: "c = ?n"
    "st' = st2\<lparr>maps := (maps st2)(?mc \<mapsto> es'), next_ref := Suc ?mc,
                deepsets := (deepsets st2)(?n \<mapsto> ?mc)\<rparr>"
    by (auto simp: h_clone_def split sm1 cloneDeep_Map_def ce new_Map_def)
  have f': "deepsets st' = (deepsets st)(?n \<mapsto> ?mc)"
    "maps st' = (maps st)(Suc ?n \<mapsto> [], ?mc \<mapsto> es')"
    "arrays st' = arrays st2" "next_ref st' = Suc ?mc"
    by (simp_all add: res f2 f1)
  have mc: "this_map st' c = Some (?mc, es')"
    by (simp add: this_map_Some f' res)
  have refs': "refs_of es' = {Suc (Suc ?n) ..< ?mc}"
  proof -
    have "refs_of es' = set (map snd es')" by (simp add: refs_of_def)
    also have "\<dots> = set [Suc (Suc ?n) ..< Suc (Suc ?n) + length es]" by (simp only: sn)
    also have "\<dots> = {Suc (Suc ?n) ..< ?mc}" by (simp only: set_upt f2(3))
    finally show ?thesis .
  qed
  have dist': "distinct (map snd es')"
    by (simp only: sn distinct_upt)
  have "live st' c"
    using mc refs' dist' f2(3)
    by (intro liveI[of st' c ?mc es']) (auto simp: res(1) f')
  moreover have "deref st1 es = deref st es"
    by (intro deref_cong) (simp add: Array_get_def f1)
  moreover have "deref st' es' = deref st2 es'"
    by (intro deref_cong) (simp add: Array_get_def f')
  ultimately have "live st' c \<and> view st' c = clone P (view st this)"
    using dr by (simp add: view_this_map[OF mc] view_this_map[OF m])
  moreover have "live st' other \<and> view st' other = view st other \<and> separate st' other c"
    if lo: "live st other" for other
  proof -
    from lo obtain mo eo where o: "this_map st other = Some (mo, eo)"
      and bo: "other < ?n" "mo < ?n" "\<forall>a\<in>refs_of eo. a < ?n"
      and do: "distinct (map snd eo)"
      by (rule liveD)
    from o bo f2(3) have o': "this_map st' other = Some (mo, eo)"
      by (simp add: this_map_Some f')
    have same: "Array_get st' a = Array_get st a" if "a \<in> refs_of eo" for a
    proof -
      from that bo(3) have "a < Suc (Suc ?n)" by auto
      with ar have "arrays st2 a = arrays st a" by blast
      then show ?thesis by (simp add: Array_get_def f')
    qed
    have "live st' other"
      using o' bo do f2(3) by (intro liveI[of st' other mo eo]) (auto simp: f')
    moreover have "view st' other = view st other"
      using deref_cong[of eo st' st, OF same] by (simp add: view_this_map[OF o] view_this_map[OF o'])
    moreover have "refs_of eo \<inter> refs_of es' = {}"
      using bo(3) refs' by fastforce
    then have "separate st' other c"
      unfolding separate_iff[OF o' mc] using bo f2(3) by (simp add: res(1))
    ultimately show ?thesis by simp
  qed
  ultimately show ?thesis by blast
qed

text \<open>The constructor creates a live container, separate from every live container.\<close>

lemma h_DeepSet_ok:
  assumes "h_DeepSet P st vals = (r, st')"
  shows "r = next_ref st \<and> live st' r \<and> view st' r = DeepSet P vals \<and>
         (\<forall>other. live st other \<longrightarrow>
            live st' other \<and> separate st' r other \<and> view st' other = view st other)"
proof -
  let ?n = "next_ref st"
  let ?st2 = "st\<lparr>maps := (maps st)(Suc ?n \<mapsto> []), next_ref := Suc (Suc ?n),
                 deepsets := (deepsets st)(?n \<mapsto> Suc ?n)\<rparr>"
  from assms have r: "r = ?n" and st': "st' = snd (h_add P ?st2 ?n vals)"
    by (auto simp: h_DeepSet_def new_Map_def Let_def h_add_def)
  have m2: "this_map ?st2 ?n = Some (Suc ?n, [])"
    by (simp add: this_map_Some)
  have l2: "live ?st2 ?n"
    by (rule liveI[OF m2]) (simp_all add: refs_of_def)
  have v2: "view ?st2 ?n = empty_set"
    by (simp add: view_this_map[OF m2] deref_def empty_set_def)
  note ok = h_add_ok[OF l2, of P vals]
  have "live st' other \<and> separate st' r other \<and> view st' other = view st other"
    if lo: "live st other" for other
  proof -
    from lo obtain mo eo where o: "this_map st other = Some (mo, eo)"
      and bo: "other < ?n" "mo < ?n" "\<forall>a\<in>refs_of eo. a < ?n"
      and do: "distinct (map snd eo)"
      by (rule liveD)
    from o bo have o2: "this_map ?st2 other = Some (mo, eo)"
      by (simp add: this_map_Some)
    have "live ?st2 other"
      using bo do by (intro liveI[OF o2]) auto
    moreover have "separate ?st2 ?n other"
      unfolding separate_iff[OF m2 o2] using bo by (simp add: refs_of_def)
    moreover have "view ?st2 other = view st other"
      by (simp add: view_this_map[OF o] view_this_map[OF o2] deref_def Array_get_def)
    ultimately show ?thesis
      using ok by (simp add: preserves_others_def st' r)
  qed
  with ok v2 show ?thesis
    by (simp add: st' r DeepSet_def)
qed

section \<open>Clone isolation and the result of \<open>add\<close>\<close>

lemma run_on_untouched:
  "list_all (\<lambda>(r, mu). r \<noteq> this) script \<Longrightarrow> run_on P this script m = m"
  by (induction script) (auto simp: run_on_def)

text \<open>
  Claim C9. \<open>clone()\<close> of a live container returns a different object that is separate
  from the source (another Map, no shared array) and has the same size and the same
  members; the source is unchanged by the call. After cloning, in any sequence of
  \<open>add\<close>, \<open>delete\<close> and \<open>clear\<close> calls addressed to the source or to the clone, each of the
  two containers ends in the state that its own calls alone produce. In particular,
  calls on the clone never change the size or the membership of the source, and calls
  on the source never change those of the clone.
\<close>

theorem clone_isolation:
  assumes "providers_ok P" and "live st this" and "h_clone P st this = (c, st1)"
    and "list_all (\<lambda>(r, mu). r = this \<or> r = c) script"
  shows "c \<noteq> this \<and> separate st1 this c \<and>
         h_size st1 c = h_size st this \<and> (\<forall>x. h_has P st1 c x = h_has P st this x) \<and>
         h_size st1 this = h_size st this \<and> (\<forall>x. h_has P st1 this x = h_has P st this x) \<and>
         view (h_run P st1 script) this = run_on P this script (view st this) \<and>
         view (h_run P st1 script) c = run_on P c script (view st1 c) \<and>
         (list_all (\<lambda>(r, mu). r = c) script \<longrightarrow>
            h_size (h_run P st1 script) this = h_size st this \<and>
            (\<forall>x. h_has P (h_run P st1 script) this x = h_has P st this x)) \<and>
         (list_all (\<lambda>(r, mu). r = this) script \<longrightarrow>
            h_size (h_run P st1 script) c = h_size st1 c \<and>
            (\<forall>x. h_has P (h_run P st1 script) c x = h_has P st1 c x))"
proof -
  from assms(1) have e: "equivalence P" and h: "hash_consistent P" and cf: "clone_faithful P"
    by (simp_all add: providers_ok_def)
  from h_clone_ok[OF assms(2,3)] assms(2)
  have lc: "live st1 c" and vc: "view st1 c = clone P (view st this)"
    and lt: "live st1 this" and vt: "view st1 this = view st this"
    and sep: "separate st1 this c"
    by simp_all
  from sep have ne: "c \<noteq> this" by (auto simp: separate_def)
  from h_run_isolated[OF lt lc sep assms(4), of P]
  have rt: "view (h_run P st1 script) this = run_on P this script (view st this)"
    and rc: "view (h_run P st1 script) c = run_on P c script (view st1 c)"
    by (simp_all add: vt)
  have only_c: "run_on P this script (view st this) = view st this"
    if "list_all (\<lambda>(r, mu). r = c) script"
    using that ne by (intro run_on_untouched) (auto simp: list_all_iff)
  have only_this: "run_on P c script (view st1 c) = view st1 c"
    if "list_all (\<lambda>(r, mu). r = this) script"
    using that ne by (intro run_on_untouched) (auto simp: list_all_iff)
  show ?thesis
    using ne sep rt rc only_c only_this
    by (simp add: h_size_view h_has_view vc vt size_clone has_clone[OF e h cf])
qed

theorem clone_isolation_witness:
  "providers_ok example_providers \<and> live example_heap 0 \<and>
   fst (h_clone example_providers example_heap 0) = 4 \<and>
   view (h_run example_providers (snd (h_clone example_providers example_heap 0))
           [(4, Add [7, 5]), (4, Delete 2), (4, Clear), (4, Add [9])]) 4 = [(0, [9])] \<and>
   h_size (h_run example_providers (snd (h_clone example_providers example_heap 0))
           [(4, Add [7, 5]), (4, Delete 2), (4, Clear), (4, Add [9])]) 0 = 3 \<and>
   h_size example_heap 0 = 3 \<and>
   view (h_run example_providers (snd (h_clone example_providers example_heap 0))
           [(0, Delete 1), (0, Add [9])]) 0 = [(1, [4]), (2, [2]), (0, [9])] \<and>
   h_size (h_run example_providers (snd (h_clone example_providers example_heap 0))
           [(0, Delete 1), (0, Add [9])]) 4 = 3"
proof -
  let ?script = "[(4, Add [7, 5]), (4, Delete 2), (4, Clear), (4, Add [9 :: int])]"
  have l: "live example_heap 0"
    by code_simp
  have c: "fst (h_clone example_providers example_heap 0) = 4"
    by code_simp
  then have hc: "h_clone example_providers example_heap 0
                 = (4, snd (h_clone example_providers example_heap 0))"
    by (cases "h_clone example_providers example_heap 0") simp
  have s: "list_all (\<lambda>(r, mu). r = 0 \<or> r = 4) ?script"
          "list_all (\<lambda>(r, mu). r = 4) ?script"
    by simp_all
  have v: "view (h_run example_providers (snd (h_clone example_providers example_heap 0)) ?script) 4
           = [(0, [9])]"
    by code_simp
  have z: "h_size example_heap 0 = 3"
    by code_simp
  let ?script2 = "[(0, Delete 1), (0, Add [9 :: int])]"
  have s2: "list_all (\<lambda>(r, mu). r = 0 \<or> r = 4) ?script2"
           "list_all (\<lambda>(r, mu). r = 0) ?script2"
    by simp_all
  have v2: "view (h_run example_providers (snd (h_clone example_providers example_heap 0)) ?script2) 0
            = [(1, [4]), (2, [2]), (0, [9])]"
    by code_simp
  have z2: "h_size (snd (h_clone example_providers example_heap 0)) 4 = 3"
    by code_simp
  from clone_isolation[OF example_providers_ok l hc s(1)]
       clone_isolation[OF example_providers_ok l hc s2(1)]
       s(2) s2(2) l c v z v2 z2 example_providers_ok
  show ?thesis by simp
qed

text \<open>
  Claim C10. For every store, receiver and argument list, \<open>add(...values)\<close> returns the
  reference of the receiver itself, whether or not a value was inserted; when the
  receiver is a live container, the returned object is still the same live object with
  the same Map, and its state is the receiver's state with the values added.
\<close>

theorem add_returns_receiver:
  "fst (h_add P st this vals) = this \<and>
   (live st this \<longrightarrow>
      live (snd (h_add P st this vals)) this \<and>
      deepsets (snd (h_add P st this vals)) this = deepsets st this \<and>
      view (snd (h_add P st this vals)) this = add P (view st this) vals)"
proof -
  have "deepsets (fold (\<lambda>val s. h_p_add P s this val) vals st) = deepsets st" for st :: "'a heap"
  proof (induction vals arbitrary: st)
    case Nil
    show ?case by simp
  next
    case (Cons v vals)
    have "deepsets (h_p_add P st this v) = deepsets st"
      by (auto simp: h_p_add_def Let_def new_Array_def Map_has_def split: option.splits prod.splits)
    with Cons[of "h_p_add P st this v"] show ?case by simp
  qed
  then have "deepsets (snd (h_add P st this vals)) = deepsets st"
    by (simp add: h_add_def)
  with h_add_ok[of st this P vals] show ?thesis
    by (simp add: h_add_def)
qed

theorem add_returns_receiver_witness:
  "live example_heap 0 \<and>
   fst (h_add example_providers example_heap 0 [4, 7]) = 0 \<and>
   view (snd (h_add example_providers example_heap 0 [4, 7])) 0 = [(1, [1, 4, 7]), (2, [2])]"
proof -
  have l: "live example_heap 0"
    by code_simp
  have v: "add example_providers (view example_heap 0) [4, 7] = [(1, [1, 4, 7]), (2, [2])]"
    by code_simp
  from add_returns_receiver[of example_providers example_heap 0 "[4, 7]"] l v
  show ?thesis by simp
qed

end
